theory Spec2Isabelle
  imports Main "HOL-Library.Word"
begin

unbundle bit_operations_syntax

section \<open>The preconnect manager of chrome/browser/predictors/preconnect_manager.cc\<close>

text \<open>
  The manager runs on one thread (every entry point starts with
  \<open>DCHECK_CURRENTLY_ON(UI)\<close>), so a method is a function from the manager's state to
  its next state. A failed assertion, a null dereference and a use of a freed
  \<open>PreresolveInfo\<close> are values of type \<open>error\<close>; the calls the manager makes to its
  collaborators (observer, delegate, network context, task runner) are appended to the
  field \<open>calls\<close>.
\<close>

subsection \<open>Data\<close>

type_synonym size_t = "64 word"
type_synonym PreresolveJobId = nat
type_synonym info_ptr = nat
type_synonym NetworkContext = nat

text \<open>
  Modelled from the spec: \<open>GURL\<close> (url/gurl.h is not part of the sources). An origin is
  "scheme + host + port triple, no path/query"; \<open>GetOrigin\<close> drops the path,
  \<open>SchemeIsHTTPOrHTTPS\<close> compares the scheme, the default constructor gives the empty
  URL, and \<open>GURL_http h\<close> stands for \<open>GURL("http://" + h)\<close> on a plain host name.
\<close>

record gurl =
  scheme :: string
  host :: string
  port :: nat
  path :: string

definition GetOrigin :: "gurl \<Rightarrow> gurl" where
  "GetOrigin u = u\<lparr>path := []\<rparr>"

definition SchemeIsHTTPOrHTTPS :: "gurl \<Rightarrow> bool" where
  "SchemeIsHTTPOrHTTPS u = (scheme u = ''http'' \<or> scheme u = ''https'')"

definition GURL_empty :: gurl where
  "GURL_empty = \<lparr>scheme = [], host = [], port = 0, path = []\<rparr>"

definition GURL_http :: "string \<Rightarrow> gurl" where
  "GURL_http h = \<lparr>scheme = ''http'', host = h, port = 80, path = []\<rparr>"

text \<open>
  What the source takes from headers that are not part of the sources, as parameters:
  the cap \<open>kMaxInflightPreresolves\<close> (preconnect_manager.h), whether \<open>DCHECK\<close> is
  compiled in (base/logging.h), and the load flags of net/base/load_flags.h.
\<close>

record config =
  kMaxInflightPreresolves :: size_t
  dcheck_is_on :: bool
  LOAD_NORMAL :: "32 word"
  LOAD_DO_NOT_SEND_COOKIES :: "32 word"
  LOAD_DO_NOT_SAVE_COOKIES :: "32 word"
  LOAD_DO_NOT_SEND_AUTH_DATA :: "32 word"

record PreconnectRequest =
  req_origin :: gurl
  req_num_sockets :: int
  req_allow_credentials :: bool

record PreconnectedRequestStats =
  stat_origin :: gurl
  was_preresolve_cached :: bool
  was_preconnected :: bool

record PreconnectStats =
  stats_url :: gurl
  start_time :: nat
  requests_stats :: "PreconnectedRequestStats list"

record PreresolveInfo =
  info_url :: gurl
  queued_count :: size_t
  inflight_count :: size_t
  was_canceled :: bool
  stats :: PreconnectStats

text \<open>
  A job points to its \<open>PreresolveInfo\<close> by a raw pointer (\<open>info\<close>, null for an ad-hoc
  job); the objects live in \<open>heap\<close>, owned by the map \<open>preresolve_info\<close>.
  \<open>resolve_host_client\<close> holds the network context the client was made with.
\<close>

record PreresolveJob =
  job_url :: gurl
  num_sockets :: int
  allow_credentials :: bool
  info :: "info_ptr option"
  resolve_host_client :: "NetworkContext option"

datatype event =
    OnPreconnectUrl gurl int bool
  | OnPreresolveUrl gurl
  | OnPreresolveFinished gurl bool
  | PreconnectSockets int gurl "32 word" bool
  | ResolveHost gurl PreresolveJobId
  | PostTask PreresolveJobId bool
  | PreconnectFinished PreconnectStats

text \<open>
  Modelled from the spec: the Job Table (base::IDMap, base/containers/id_map.h is not
  part of the sources). "Add(job) -> handle inserts and returns a stable identifier;
  Lookup(handle) returns the job or fails with NotFound; Remove(handle) deletes the
  entry"; no handle is reused.
\<close>

record IDMap =
  next_id :: PreresolveJobId
  data :: "PreresolveJobId \<rightharpoonup> PreresolveJob"

definition IDMap_Add :: "PreresolveJob \<Rightarrow> IDMap \<Rightarrow> PreresolveJobId \<times> IDMap" where
  "IDMap_Add job t =
     (next_id t, t\<lparr>next_id := next_id t + 1, data := (data t)(next_id t \<mapsto> job)\<rparr>)"

definition IDMap_Lookup :: "IDMap \<Rightarrow> PreresolveJobId \<Rightarrow> PreresolveJob option" where
  "IDMap_Lookup t job_id = data t job_id"

definition IDMap_Remove :: "PreresolveJobId \<Rightarrow> IDMap \<Rightarrow> IDMap" where
  "IDMap_Remove job_id t = t\<lparr>data := (data t)(job_id := None)\<rparr>"

record manager =
  delegate :: bool
  observer :: bool
  network_context :: "NetworkContext option"
  profile_is_testing :: bool
  default_network_context :: "NetworkContext option"
  preresolve_jobs :: IDMap
  queued_jobs :: "PreresolveJobId list"
  preresolve_info :: "string \<rightharpoonup> info_ptr"
  heap :: "info_ptr \<rightharpoonup> PreresolveInfo"
  next_ptr :: info_ptr
  inflight_preresolves_count :: size_t
  calls :: "event list"

datatype error = DCheckFailure | NullDeref | UseAfterFree | InvalidIterator | NotPending

subsection \<open>Helpers\<close>

definition and_then :: "error + 'a \<Rightarrow> ('a \<Rightarrow> error + 'b) \<Rightarrow> error + 'b" where
  "and_then m f = (case m of Inl e \<Rightarrow> Inl e | Inr x \<Rightarrow> f x)"

definition DCHECK :: "config \<Rightarrow> bool \<Rightarrow> error + unit" where
  "DCHECK c b = (if dcheck_is_on c then (if b then Inr () else Inl DCheckFailure) else Inr ())"

definition emit :: "event \<Rightarrow> manager \<Rightarrow> manager" where
  "emit e s = s\<lparr>calls := calls s @ [e]\<rparr>"

text \<open>\<open>if (observer) observer->...\<close>\<close>

definition notify :: "event \<Rightarrow> manager \<Rightarrow> manager" where
  "notify e s = (if observer s then emit e s else s)"

text \<open>Reading and writing \<open>*info\<close>: a pointer into freed memory is an error.\<close>

definition deref :: "manager \<Rightarrow> info_ptr \<Rightarrow> error + PreresolveInfo" where
  "deref s p = (case heap s p of None \<Rightarrow> Inl UseAfterFree | Some i \<Rightarrow> Inr i)"

definition modify_info ::
  "info_ptr \<Rightarrow> (PreresolveInfo \<Rightarrow> PreresolveInfo) \<Rightarrow> manager \<Rightarrow> error + manager" where
  "modify_info p f s =
     (case heap s p of None \<Rightarrow> Inl UseAfterFree
      | Some i \<Rightarrow> Inr (s\<lparr>heap := (heap s)(p \<mapsto> f i)\<rparr>))"

text \<open>\<open>if (info) <update *info>\<close>\<close>

definition if_info ::
  "info_ptr option \<Rightarrow> (PreresolveInfo \<Rightarrow> PreresolveInfo) \<Rightarrow> manager \<Rightarrow> error + manager" where
  "if_info ip f s = (case ip of None \<Rightarrow> Inr s | Some p \<Rightarrow> modify_info p f s)"

text \<open>
  Modelled from the spec: \<open>PreresolveInfo::is_done\<close> and \<open>PreresolveJob::need_preconnect\<close>
  (inline in preconnect_manager.h, not part of the sources): "group is done iff queued
  count == 0 AND in-flight count == 0", and a job needs a preconnect when its
  "socket_count > 0".
\<close>

definition is_done :: "PreresolveInfo \<Rightarrow> bool" where
  "is_done i = (queued_count i = 0 \<and> inflight_count i = 0)"

definition need_preconnect :: "PreresolveJob \<Rightarrow> bool" where
  "need_preconnect job = (0 < num_sockets job)"

definition new_PreresolveInfo :: "gurl \<Rightarrow> nat \<Rightarrow> nat \<Rightarrow> PreresolveInfo" where
  "new_PreresolveInfo u n now =
     \<lparr>info_url = u, queued_count = of_nat n, inflight_count = 0, was_canceled = False,
      stats = \<lparr>stats_url = u, start_time = now, requests_stats = []\<rparr>\<rparr>"

text \<open>The constructor of \<open>PreresolveJob\<close>, with its \<open>DCHECK_GE(num_sockets, 0)\<close>.\<close>

definition new_PreresolveJob ::
  "config \<Rightarrow> gurl \<Rightarrow> int \<Rightarrow> bool \<Rightarrow> info_ptr option \<Rightarrow> error + PreresolveJob" where
  "new_PreresolveJob c u n cred ip =
     and_then (DCHECK c (0 \<le> n)) (\<lambda>_.
       Inr \<lparr>job_url = u, num_sockets = n, allow_credentials = cred, info = ip,
            resolve_host_client = None\<rparr>)"

definition kAllowCredentialsOnPreconnectByDefault :: bool where
  "kAllowCredentialsOnPreconnectByDefault = True"

definition PreconnectManager :: "bool \<Rightarrow> bool \<Rightarrow> NetworkContext option \<Rightarrow> manager" where
  "PreconnectManager dlg testing default_ctx =
     \<lparr>delegate = dlg, observer = False, network_context = None,
      profile_is_testing = testing, default_network_context = default_ctx,
      preresolve_jobs = \<lparr>next_id = 1, data = Map.empty\<rparr>,
      queued_jobs = [], preresolve_info = Map.empty, heap = Map.empty, next_ptr = 0,
      inflight_preresolves_count = 0, calls = []\<rparr>"

subsection \<open>The network gateway\<close>

definition GetNetworkContext :: "manager \<Rightarrow> NetworkContext option" where
  "GetNetworkContext s =
     (case network_context s of
        Some ctx \<Rightarrow> Some ctx
      | None \<Rightarrow> if profile_is_testing s then None else default_network_context s)"

definition load_attributes :: "config \<Rightarrow> bool \<Rightarrow> bool \<times> 32 word" where
  "load_attributes c cred =
     (if cred then (False, LOAD_NORMAL c)
      else (True, LOAD_DO_NOT_SEND_COOKIES c OR LOAD_DO_NOT_SAVE_COOKIES c
                  OR LOAD_DO_NOT_SEND_AUTH_DATA c))"

definition PreconnectUrl ::
  "config \<Rightarrow> gurl \<Rightarrow> gurl \<Rightarrow> int \<Rightarrow> bool \<Rightarrow> manager \<Rightarrow> error + manager" where
  "PreconnectUrl c u site_for_cookies n cred s =
     and_then (DCHECK c (GetOrigin u = u)) (\<lambda>_.
     and_then (DCHECK c (SchemeIsHTTPOrHTTPS u)) (\<lambda>_.
       let s1 = notify (OnPreconnectUrl u n cred) s in
       case GetNetworkContext s1 of
         None \<Rightarrow> Inr s1
       | Some ctx \<Rightarrow>
           Inr (emit (PreconnectSockets n u (snd (load_attributes c cred))
                        (fst (load_attributes c cred))) s1)))"

text \<open>
  The callback of \<open>PreresolveUrl\<close> is \<open>OnPreresolveFinished\<close> bound to a job id, so the
  id stands for it. Without a network context the callback is posted to the UI thread
  with \<open>false\<close>; otherwise a \<open>ResolveHostClientImpl\<close> is made, which asks the network
  context to resolve the host and keeps the callback.
\<close>

definition PreresolveUrl ::
  "config \<Rightarrow> gurl \<Rightarrow> PreresolveJobId \<Rightarrow> manager \<Rightarrow> error + (NetworkContext option \<times> manager)" where
  "PreresolveUrl c u callback s =
     and_then (DCHECK c (GetOrigin u = u)) (\<lambda>_.
     and_then (DCHECK c (SchemeIsHTTPOrHTTPS u)) (\<lambda>_.
       let s1 = notify (OnPreresolveUrl u) s in
       case GetNetworkContext s1 of
         None \<Rightarrow> Inr (None, emit (PostTask callback False) s1)
       | Some ctx \<Rightarrow> Inr (Some ctx, emit (ResolveHost u callback) s1)))"

subsection \<open>The admission loop\<close>

definition set_client :: "PreresolveJobId \<Rightarrow> NetworkContext option \<Rightarrow> manager \<Rightarrow> manager" where
  "set_client job_id client s =
     (case IDMap_Lookup (preresolve_jobs s) job_id of
        None \<Rightarrow> s
      | Some job \<Rightarrow>
          s\<lparr>preresolve_jobs := (preresolve_jobs s)
              \<lparr>data := (data (preresolve_jobs s))
                 (job_id \<mapsto> job\<lparr>resolve_host_client := client\<rparr>)\<rparr>\<rparr>)"

text \<open>\<open>info && info->was_canceled\<close>\<close>

definition info_canceled :: "manager \<Rightarrow> info_ptr option \<Rightarrow> error + bool" where
  "info_canceled s ip =
     (case ip of None \<Rightarrow> Inr False
      | Some p \<Rightarrow> and_then (deref s p) (\<lambda>i. Inr (was_canceled i)))"

text \<open>One turn of the loop of \<open>TryToLaunchPreresolveJobs\<close>, after \<open>pop_front\<close>.\<close>

definition launch_job :: "config \<Rightarrow> PreresolveJobId \<Rightarrow> manager \<Rightarrow> error + manager" where
  "launch_job c job_id s =
     (case IDMap_Lookup (preresolve_jobs s) job_id of
        None \<Rightarrow> Inl NullDeref
      | Some job \<Rightarrow>
          and_then (info_canceled s (info job)) (\<lambda>canceled.
          and_then
            (if canceled
             then Inr (s\<lparr>preresolve_jobs := IDMap_Remove job_id (preresolve_jobs s)\<rparr>)
             else
               and_then (PreresolveUrl c (job_url job) job_id s) (\<lambda>(client, s1).
               and_then (if_info (info job)
                           (\<lambda>i. i\<lparr>inflight_count := inflight_count i + 1\<rparr>)
                           (set_client job_id client s1)) (\<lambda>s2.
                 Inr (s2\<lparr>inflight_preresolves_count :=
                            inflight_preresolves_count s2 + 1\<rparr>))))
            (\<lambda>s3. if_info (info job) (\<lambda>i. i\<lparr>queued_count := queued_count i - 1\<rparr>) s3)))"

function TryToLaunchPreresolveJobs :: "config \<Rightarrow> manager \<Rightarrow> error + manager" where
  "TryToLaunchPreresolveJobs c s =
     (case queued_jobs s of
        [] \<Rightarrow> Inr s
      | job_id # rest \<Rightarrow>
          if inflight_preresolves_count s < kMaxInflightPreresolves c
          then (case launch_job c job_id (s\<lparr>queued_jobs := rest\<rparr>) of
                  Inl e \<Rightarrow> Inl e
                | Inr s' \<Rightarrow> TryToLaunchPreresolveJobs c s')
          else Inr s)"
  by pat_completeness auto
termination
proof (relation "measure (\<lambda>(c, s). length (queued_jobs s))")
  show "wf (measure (\<lambda>(c, s). length (queued_jobs s)))"
    by simp
next
  fix c :: config and s s' :: manager and job_id rest
  assume q: "queued_jobs s = job_id # rest"
    and l: "launch_job c job_id (s\<lparr>queued_jobs := rest\<rparr>) = Inr s'"
  from l have "queued_jobs s' = rest"
    by (auto simp: launch_job_def and_then_def info_canceled_def deref_def if_info_def
          modify_info_def PreresolveUrl_def DCHECK_def notify_def emit_def set_client_def
          IDMap_Lookup_def IDMap_Remove_def Let_def
        split: option.splits if_splits sum.splits)
  with q show "((c, s'), (c, s)) \<in> measure (\<lambda>(c, s). length (queued_jobs s))"
    by simp
qed

declare TryToLaunchPreresolveJobs.simps [simp del]

subsection \<open>Completion\<close>

definition add_stats :: "PreconnectedRequestStats \<Rightarrow> PreresolveInfo \<Rightarrow> PreresolveInfo" where
  "add_stats r i = i\<lparr>stats := (stats i)\<lparr>requests_stats := requests_stats (stats i) @ [r]\<rparr>\<rparr>"

text \<open>
  \<open>found && job->need_preconnect() && (!info || !info->was_canceled)\<close>, evaluated
  from left to right: \<open>info\<close> is read only when the first two conjuncts hold.
\<close>

definition compute_need_preconnect :: "manager \<Rightarrow> PreresolveJob \<Rightarrow> bool \<Rightarrow> error + bool" where
  "compute_need_preconnect s job found =
     (if found \<and> need_preconnect job
      then and_then (info_canceled s (info job)) (\<lambda>canceled. Inr (\<not> canceled))
      else Inr False)"

text \<open>\<open>info ? info->url : GURL()\<close>\<close>

definition site_for_cookies_of :: "manager \<Rightarrow> info_ptr option \<Rightarrow> error + gurl" where
  "site_for_cookies_of s ip =
     (case ip of None \<Rightarrow> Inr GURL_empty
      | Some p \<Rightarrow> and_then (deref s p) (\<lambda>i. Inr (info_url i)))"

definition FinishPreresolve ::
  "config \<Rightarrow> PreresolveJobId \<Rightarrow> bool \<Rightarrow> bool \<Rightarrow> manager \<Rightarrow> error + manager" where
  "FinishPreresolve c job_id found cached s =
     (case IDMap_Lookup (preresolve_jobs s) job_id of
        None \<Rightarrow> Inl NullDeref
      | Some job \<Rightarrow>
          and_then (compute_need_preconnect s job found) (\<lambda>need.
          and_then
            (if need
             then and_then (site_for_cookies_of s (info job)) (\<lambda>site.
                    PreconnectUrl c (job_url job) site (num_sockets job)
                      (allow_credentials job) s)
             else Inr s) (\<lambda>s1.
          and_then
            (if found
             then if_info (info job)
                    (add_stats \<lparr>stat_origin = job_url job, was_preresolve_cached = cached,
                                was_preconnected = need\<rparr>) s1
             else Inr s1) (\<lambda>s2.
            Inr (s2\<lparr>preresolve_jobs := IDMap_Remove job_id (preresolve_jobs s2)\<rparr>)))))"

text \<open>
  \<open>preresolve_info.erase(it)\<close> destroys the \<open>PreresolveInfo\<close> the map entry owns.
  Erasing \<open>end()\<close> is undefined, so it is an error also where \<open>DCHECK\<close> is compiled out.
\<close>

definition AllPreresolvesForUrlFinished :: "config \<Rightarrow> info_ptr \<Rightarrow> manager \<Rightarrow> error + manager" where
  "AllPreresolvesForUrlFinished c p s =
     and_then (deref s p) (\<lambda>i.
     and_then (DCHECK c (is_done i)) (\<lambda>_.
     and_then (DCHECK c (preresolve_info s (host (info_url i)) \<noteq> None)) (\<lambda>_.
     and_then (DCHECK c (preresolve_info s (host (info_url i)) = Some p)) (\<lambda>_.
       case preresolve_info s (host (info_url i)) of
         None \<Rightarrow> Inl InvalidIterator
       | Some q \<Rightarrow>
           let s1 = (if delegate s then emit (PreconnectFinished (stats i)) s else s) in
           Inr (s1\<lparr>preresolve_info := (preresolve_info s1)(host (info_url i) := None),
                   heap := (heap s1)(q := None)\<rparr>)))))"

text \<open>\<open>if (info && info->is_done()) AllPreresolvesForUrlFinished(info);\<close>\<close>

definition finish_if_done :: "config \<Rightarrow> info_ptr option \<Rightarrow> manager \<Rightarrow> error + manager" where
  "finish_if_done c ip s =
     (case ip of None \<Rightarrow> Inr s
      | Some p \<Rightarrow>
          and_then (deref s p) (\<lambda>i.
            if is_done i then AllPreresolvesForUrlFinished c p s else Inr s))"

definition OnPreresolveFinished_cb ::
  "config \<Rightarrow> PreresolveJobId \<Rightarrow> bool \<Rightarrow> manager \<Rightarrow> error + manager" where
  "OnPreresolveFinished_cb c job_id success s =
     (case IDMap_Lookup (preresolve_jobs s) job_id of
        None \<Rightarrow> Inl NullDeref
      | Some job \<Rightarrow>
          and_then (FinishPreresolve c job_id success False
                      (notify (OnPreresolveFinished (job_url job) success) s)) (\<lambda>s1.
          and_then (if_info (info job) (\<lambda>i. i\<lparr>inflight_count := inflight_count i - 1\<rparr>)
                      (s1\<lparr>inflight_preresolves_count := inflight_preresolves_count s1 - 1\<rparr>))
            (\<lambda>s2.
          and_then (finish_if_done c (info job) s2) (\<lambda>s3.
            TryToLaunchPreresolveJobs c s3))))"

subsection \<open>The public entry points\<close>

text \<open>The loop of \<open>Start\<close> over the requests.\<close>

fun add_requests :: "config \<Rightarrow> info_ptr \<Rightarrow> PreconnectRequest list \<Rightarrow> manager \<Rightarrow> error + manager" where
  "add_requests c p [] s = Inr s"
| "add_requests c p (request # requests) s =
     and_then (DCHECK c (GetOrigin (req_origin request) = req_origin request)) (\<lambda>_.
     and_then (new_PreresolveJob c (req_origin request) (req_num_sockets request)
                 (req_allow_credentials request) (Some p)) (\<lambda>job.
       case IDMap_Add job (preresolve_jobs s) of
         (job_id, t) \<Rightarrow>
           add_requests c p requests
             (s\<lparr>preresolve_jobs := t, queued_jobs := queued_jobs s @ [job_id]\<rparr>)))"

definition Start ::
  "config \<Rightarrow> gurl \<Rightarrow> PreconnectRequest list \<Rightarrow> nat \<Rightarrow> manager \<Rightarrow> error + manager" where
  "Start c u requests now s =
     (if preresolve_info s (host u) \<noteq> None then Inr s
      else
        and_then
          (add_requests c (next_ptr s) requests
             (s\<lparr>preresolve_info := (preresolve_info s)(host u \<mapsto> next_ptr s),
                heap := (heap s)(next_ptr s \<mapsto> new_PreresolveInfo u (length requests) now),
                next_ptr := next_ptr s + 1\<rparr>))
          (TryToLaunchPreresolveJobs c))"

definition push_front_job :: "PreresolveJob \<Rightarrow> manager \<Rightarrow> manager" where
  "push_front_job job s =
     (case IDMap_Add job (preresolve_jobs s) of
        (job_id, t) \<Rightarrow> s\<lparr>preresolve_jobs := t, queued_jobs := job_id # queued_jobs s\<rparr>)"

definition StartPreresolveHost :: "config \<Rightarrow> gurl \<Rightarrow> manager \<Rightarrow> error + manager" where
  "StartPreresolveHost c u s =
     (if SchemeIsHTTPOrHTTPS u
      then and_then (new_PreresolveJob c (GetOrigin u) 0
                       kAllowCredentialsOnPreconnectByDefault None) (\<lambda>job.
             TryToLaunchPreresolveJobs c (push_front_job job s))
      else Inr s)"

text \<open>The loop of \<open>StartPreresolveHosts\<close>, which runs from \<open>rbegin()\<close> to \<open>rend()\<close>.\<close>

fun push_hosts :: "config \<Rightarrow> string list \<Rightarrow> manager \<Rightarrow> error + manager" where
  "push_hosts c [] s = Inr s"
| "push_hosts c (h # hs) s =
     and_then (new_PreresolveJob c (GURL_http h) 0
                 kAllowCredentialsOnPreconnectByDefault None) (\<lambda>job.
       push_hosts c hs (push_front_job job s))"

definition StartPreresolveHosts :: "config \<Rightarrow> string list \<Rightarrow> manager \<Rightarrow> error + manager" where
  "StartPreresolveHosts c hostnames s =
     and_then (push_hosts c (rev hostnames) s) (TryToLaunchPreresolveJobs c)"

definition StartPreconnectUrl :: "config \<Rightarrow> gurl \<Rightarrow> bool \<Rightarrow> manager \<Rightarrow> error + manager" where
  "StartPreconnectUrl c u cred s =
     (if SchemeIsHTTPOrHTTPS u
      then and_then (new_PreresolveJob c (GetOrigin u) 1 cred None) (\<lambda>job.
             TryToLaunchPreresolveJobs c (push_front_job job s))
      else Inr s)"

definition Stop :: "gurl \<Rightarrow> manager \<Rightarrow> error + manager" where
  "Stop u s =
     (case preresolve_info s (host u) of
        None \<Rightarrow> Inr s
      | Some p \<Rightarrow> modify_info p (\<lambda>i. i\<lparr>was_canceled := True\<rparr>) s)"

subsection \<open>Runs\<close>

text \<open>
  What can happen to a manager: a call of an entry point, the network layer or the task
  runner running the callback it holds for a job, the delegate going away (it is held by
  a weak pointer), the default network context of the profile changing, and the two
  setters for tests of preconnect_manager.h.
\<close>

datatype op =
    OpStart gurl "PreconnectRequest list" nat
  | OpStartPreresolveHost gurl
  | OpStartPreresolveHosts "string list"
  | OpStartPreconnectUrl gurl bool
  | OpStop gurl
  | OpCallback PreresolveJobId bool
  | OpDelegateDestroyed
  | OpNetworkContext "NetworkContext option"
  | OpSetObserverForTesting bool
  | OpSetNetworkContextForTesting "NetworkContext option"

fun apply_op :: "config \<Rightarrow> op \<Rightarrow> manager \<Rightarrow> error + manager" where
  "apply_op c (OpStart u requests now) s = Start c u requests now s"
| "apply_op c (OpStartPreresolveHost u) s = StartPreresolveHost c u s"
| "apply_op c (OpStartPreresolveHosts hostnames) s = StartPreresolveHosts c hostnames s"
| "apply_op c (OpStartPreconnectUrl u cred) s = StartPreconnectUrl c u cred s"
| "apply_op c (OpStop u) s = Stop u s"
| "apply_op c (OpCallback job_id success) s = OnPreresolveFinished_cb c job_id success s"
| "apply_op c OpDelegateDestroyed s = Inr (s\<lparr>delegate := False\<rparr>)"
| "apply_op c (OpNetworkContext ctx) s = Inr (s\<lparr>default_network_context := ctx\<rparr>)"
| "apply_op c (OpSetObserverForTesting b) s = Inr (s\<lparr>observer := b\<rparr>)"
| "apply_op c (OpSetNetworkContextForTesting ctx) s = Inr (s\<lparr>network_context := ctx\<rparr>)"

text \<open>
  The callbacks that are outstanding: \<open>(j, None)\<close> is held by a resolve request of the
  network layer and may come back with either result, \<open>(j, Some b)\<close> is a posted task
  that will run the callback with \<open>b\<close>. A callback is a \<open>OnceCallback\<close>: running it
  uses it up. A request vector has fewer than \<open>2 ^ 64\<close> elements.
\<close>

record world =
  mgr :: manager
  pending :: "(PreresolveJobId \<times> bool option) list"
  history :: "(op \<times> event list) list"

fun issued :: "event \<Rightarrow> (PreresolveJobId \<times> bool option) list" where
  "issued (ResolveHost u j) = [(j, None)]"
| "issued (PostTask j b) = [(j, Some b)]"
| "issued (OnPreconnectUrl u n b) = []"
| "issued (OnPreresolveUrl u) = []"
| "issued (OnPreresolveFinished u b) = []"
| "issued (PreconnectSockets n u f b) = []"
| "issued (PreconnectFinished st) = []"

fun enabled :: "world \<Rightarrow> op \<Rightarrow> bool" where
  "enabled w (OpCallback j b) = ((j, None) \<in> set (pending w) \<or> (j, Some b) \<in> set (pending w))"
| "enabled w (OpStart u requests now) = (length requests < 2 ^ 64)"
| "enabled w (OpStartPreresolveHost u) = True"
| "enabled w (OpStartPreresolveHosts hostnames) = True"
| "enabled w (OpStartPreconnectUrl u cred) = True"
| "enabled w (OpStop u) = True"
| "enabled w OpDelegateDestroyed = True"
| "enabled w (OpNetworkContext ctx) = True"
| "enabled w (OpSetObserverForTesting b) = True"
| "enabled w (OpSetNetworkContextForTesting ctx) = True"

fun delivered :: "op \<Rightarrow> (PreresolveJobId \<times> bool option) list \<Rightarrow> (PreresolveJobId \<times> bool option) list" where
  "delivered (OpCallback j b) ps =
     (if (j, None) \<in> set ps then remove1 (j, None) ps else remove1 (j, Some b) ps)"
| "delivered (OpStart u requests now) ps = ps"
| "delivered (OpStartPreresolveHost u) ps = ps"
| "delivered (OpStartPreresolveHosts hostnames) ps = ps"
| "delivered (OpStartPreconnectUrl u cred) ps = ps"
| "delivered (OpStop u) ps = ps"
| "delivered OpDelegateDestroyed ps = ps"
| "delivered (OpNetworkContext ctx) ps = ps"
| "delivered (OpSetObserverForTesting b) ps = ps"
| "delivered (OpSetNetworkContextForTesting ctx) ps = ps"

definition turn :: "config \<Rightarrow> world \<Rightarrow> op \<Rightarrow> error + world" where
  "turn c w x =
     (if enabled w x
      then (case apply_op c x ((mgr w)\<lparr>calls := []\<rparr>) of
              Inl e \<Rightarrow> Inl e
            | Inr m \<Rightarrow>
                Inr \<lparr>mgr = m,
                     pending = delivered x (pending w) @ concat (map issued (calls m)),
                     history = history w @ [(x, calls m)]\<rparr>)
      else Inl NotPending)"

fun run :: "config \<Rightarrow> world \<Rightarrow> op list \<Rightarrow> error + world" where
  "run c w [] = Inr w"
| "run c w (x # xs) = (case turn c w x of Inl e \<Rightarrow> Inl e | Inr w' \<Rightarrow> run c w' xs)"

definition new_world :: "bool \<Rightarrow> bool \<Rightarrow> NetworkContext option \<Rightarrow> world" where
  "new_world dlg testing default_ctx =
     \<lparr>mgr = PreconnectManager dlg testing default_ctx, pending = [], history = []\<rparr>"

subsection \<open>Example inputs\<close>

text \<open>
  Three configurations (a cap of one, of three and of four, \<open>DCHECK\<close> compiled in, the flag values
  \<open>0\<close>, \<open>64\<close>, \<open>128\<close> and \<open>256\<close>), some URLs and a request, for the concrete runs
  below; \<open>trace_of\<close>, \<open>pending_of\<close>, \<open>manager_of\<close> and \<open>world_of\<close> read a result.
\<close>

definition cfg1 :: config where
  "cfg1 = \<lparr>kMaxInflightPreresolves = 1, dcheck_is_on = True, LOAD_NORMAL = 0,
     LOAD_DO_NOT_SEND_COOKIES = 64, LOAD_DO_NOT_SAVE_COOKIES = 128,
     LOAD_DO_NOT_SEND_AUTH_DATA = 256\<rparr>"

definition cfg3 :: config where
  "cfg3 = cfg1\<lparr>kMaxInflightPreresolves := 3\<rparr>"

definition cfg4 :: config where
  "cfg4 = cfg1\<lparr>kMaxInflightPreresolves := 4\<rparr>"

definition url_x :: gurl where
  "url_x = \<lparr>scheme = ''http'', host = ''x'', port = 80, path = []\<rparr>"

definition url_u :: gurl where
  "url_u = \<lparr>scheme = ''https'', host = ''u'', port = 443, path = ''/p''\<rparr>"

definition url_ftp :: gurl where
  "url_ftp = \<lparr>scheme = ''ftp'', host = ''f'', port = 21, path = []\<rparr>"

definition req_r :: PreconnectRequest where
  "req_r = \<lparr>req_origin = \<lparr>scheme = ''https'', host = ''r'', port = 443, path = []\<rparr>,
     req_num_sockets = 1, req_allow_credentials = False\<rparr>"

definition trace_of :: "error + world \<Rightarrow> (op \<times> event list) list" where
  "trace_of r = (case r of Inl e \<Rightarrow> [] | Inr w \<Rightarrow> history w)"

definition manager_of :: "error + world \<Rightarrow> manager" where
  "manager_of r = (case r of Inl e \<Rightarrow> PreconnectManager False True None | Inr w \<Rightarrow> mgr w)"

definition first_start :: manager where
  "first_start = manager_of (run cfg1 (new_world True False (Some 7)) [OpStart url_u [req_r] 0])"

definition no_network :: manager where
  "no_network = PreconnectManager True True None"



definition pending_of :: "error + world \<Rightarrow> (PreresolveJobId \<times> bool option) list" where
  "pending_of r = (case r of Inl e \<Rightarrow> [] | Inr w \<Rightarrow> pending w)"

definition leak_run :: "error + world" where
  "leak_run = run cfg1 (new_world True False (Some 7))
     [OpStartPreresolveHost url_x, OpStart url_u [req_r] 0, OpStop url_u, OpCallback 1 True]"

definition leak_run3 :: "error + world" where
  "leak_run3 = run cfg3 (new_world True False (Some 7))
     [OpStartPreresolveHosts [''a'', ''b'', ''c''], OpStart url_u [req_r] 0, OpStop url_u,
      OpCallback 1 True, OpCallback 2 True, OpCallback 3 True]"

text \<open>The job that \<open>StartPreresolveHosts\<close> makes for a host name.\<close>

definition host_job :: "string \<Rightarrow> PreresolveJob" where
  "host_job h = \<lparr>job_url = GURL_http h, num_sockets = 0,
     allow_credentials = kAllowCredentialsOnPreconnectByDefault, info = None,
     resolve_host_client = None\<rparr>"

definition world_of :: "error + world \<Rightarrow> world" where
  "world_of r = (case r of Inl e \<Rightarrow> new_world False True None | Inr w \<Rightarrow> w)"

definition full_world :: world where
  "full_world = world_of (run cfg3 (new_world True False (Some 7))
     [OpStart url_u [req_r, req_r, req_r, req_r] 0])"

definition stop_w1 :: world where
  "stop_w1 = world_of (run cfg1 (new_world True False (Some 7)) [OpStart url_u [req_r] 0])"

definition stop_w2 :: world where
  "stop_w2 = world_of (turn cfg1 stop_w1 (OpStop url_u))"

definition stop_w3 :: world where
  "stop_w3 = world_of (run cfg1 stop_w2 [OpCallback 1 True])"




definition busy_w :: world where
  "busy_w = world_of (run cfg1 (new_world True False (Some 7)) [OpStartPreresolveHost url_x])"

definition order_w1 :: world where
  "order_w1 = world_of (turn cfg1 busy_w (OpStartPreresolveHosts [''a'', ''b'', ''c'']))"

definition order_w2 :: world where
  "order_w2 = world_of (turn cfg1 order_w1 (OpStartPreresolveHost (GURL_http ''d'')))"

definition order_w3 :: world where
  "order_w3 = world_of (run cfg1 order_w2
     [OpCallback 1 True, OpCallback 5 True, OpCallback 4 False, OpCallback 3 True])"

subsection \<open>Notions for the proofs\<close>

text \<open>
  \<open>n_issued\<close> counts the callbacks a list of calls hands out; \<open>resolve_calls\<close> and
  \<open>preconnect_calls\<close> are the calls that \<open>PreresolveUrl\<close> and \<open>PreconnectUrl\<close> make;
  \<open>table_with\<close> is a job table after a list of jobs was added; \<open>counted\<close> is the
  invariant of the global counter.
\<close>

definition n_issued :: "event list \<Rightarrow> nat" where
  "n_issued evs = length (concat (map issued evs))"

definition resolve_calls :: "manager \<Rightarrow> gurl \<Rightarrow> PreresolveJobId \<Rightarrow> event list" where
  "resolve_calls s u j =
     (if observer s then [OnPreresolveUrl u] else []) @
     [case GetNetworkContext s of None \<Rightarrow> PostTask j False | Some ctx \<Rightarrow> ResolveHost u j]"

definition preconnect_calls :: "config \<Rightarrow> manager \<Rightarrow> gurl \<Rightarrow> int \<Rightarrow> bool \<Rightarrow> event list" where
  "preconnect_calls c s u n cred =
     (if observer s then [OnPreconnectUrl u n cred] else []) @
     (case GetNetworkContext s of
        None \<Rightarrow> []
      | Some ctx \<Rightarrow> [PreconnectSockets n u (snd (load_attributes c cred))
                      (fst (load_attributes c cred))])"

definition request_job :: "info_ptr \<Rightarrow> PreconnectRequest \<Rightarrow> PreresolveJob" where
  "request_job p r = \<lparr>job_url = req_origin r, num_sockets = req_num_sockets r,
     allow_credentials = req_allow_credentials r, info = Some p, resolve_host_client = None\<rparr>"

definition table_with :: "IDMap \<Rightarrow> PreresolveJob list \<Rightarrow> IDMap" where
  "table_with t jobs =
     \<lparr>next_id = next_id t + length jobs,
      data = (\<lambda>j. if next_id t \<le> j \<and> j < next_id t + length jobs
                  then Some (jobs ! (j - next_id t)) else data t j)\<rparr>"

definition is_callback :: "op \<Rightarrow> bool" where
  "is_callback x = (case x of OpCallback j b \<Rightarrow> True | _ \<Rightarrow> False)"

definition counted :: "config \<Rightarrow> world \<Rightarrow> bool" where
  "counted c w \<longleftrightarrow>
     inflight_preresolves_count (mgr w) \<le> kMaxInflightPreresolves c \<and>
     unat (inflight_preresolves_count (mgr w)) = length (pending w)"

text \<open>
  \<open>bounded\<close>: job ids and info pointers in use are below the next ones to be handed
  out. \<open>admits e j\<close>: the call \<open>e\<close> is a resolve made for job \<open>j\<close>.
  \<open>is_preconnect\<close>: the call comes from \<open>PreconnectUrl\<close>. \<open>group_job s p j\<close>: job
  \<open>j\<close> is in the table and points to the group at \<open>p\<close>. \<open>stopped G p\<close>: the jobs
  \<open>G\<close> keep pointing to \<open>p\<close>, and the group at \<open>p\<close>, while it lives, is cancelled.
\<close>

definition bounded :: "manager \<Rightarrow> bool" where
  "bounded s \<longleftrightarrow>
     (\<forall>j. data (preresolve_jobs s) j \<noteq> None \<longrightarrow> j < next_id (preresolve_jobs s)) \<and>
     (\<forall>p. heap s p \<noteq> None \<longrightarrow> p < next_ptr s)"

fun admits :: "event \<Rightarrow> PreresolveJobId \<Rightarrow> bool" where
  "admits (ResolveHost u j) k = (j = k)"
| "admits (PostTask j b) k = (j = k)"
| "admits (OnPreconnectUrl u n b) k = False"
| "admits (OnPreresolveUrl u) k = False"
| "admits (OnPreresolveFinished u b) k = False"
| "admits (PreconnectSockets n u f b) k = False"
| "admits (PreconnectFinished st) k = False"

fun is_preconnect :: "event \<Rightarrow> bool" where
  "is_preconnect (PreconnectSockets n u f b) = True"
| "is_preconnect (OnPreconnectUrl u n b) = True"
| "is_preconnect (ResolveHost u j) = False"
| "is_preconnect (PostTask j b) = False"
| "is_preconnect (OnPreresolveUrl u) = False"
| "is_preconnect (OnPreresolveFinished u b) = False"
| "is_preconnect (PreconnectFinished st) = False"

definition group_job :: "manager \<Rightarrow> info_ptr \<Rightarrow> PreresolveJobId \<Rightarrow> bool" where
  "group_job s p j =
     (case data (preresolve_jobs s) j of None \<Rightarrow> False | Some job \<Rightarrow> info job = Some p)"

definition jobs_of_group :: "(PreresolveJobId \<Rightarrow> bool) \<Rightarrow> info_ptr \<Rightarrow> IDMap \<Rightarrow> bool" where
  "jobs_of_group G p t \<longleftrightarrow>
     (\<forall>j. G j \<longrightarrow> j < next_id t \<and> (\<forall>job. data t j = Some job \<longrightarrow> info job = Some p))"

definition canceled_at :: "info_ptr \<Rightarrow> (info_ptr \<rightharpoonup> PreresolveInfo) \<Rightarrow> info_ptr \<Rightarrow> bool" where
  "canceled_at p h n \<longleftrightarrow> p < n \<and> (\<forall>i. h p = Some i \<longrightarrow> was_canceled i)"

definition stopped :: "(PreresolveJobId \<Rightarrow> bool) \<Rightarrow> info_ptr \<Rightarrow> manager \<Rightarrow> bool" where
  "stopped G p s \<longleftrightarrow>
     jobs_of_group G p (preresolve_jobs s) \<and> canceled_at p (heap s) (next_ptr s)"

definition silent :: "(PreresolveJobId \<Rightarrow> bool) \<Rightarrow> bool \<Rightarrow> event list \<Rightarrow> bool" where
  "silent G np evs \<longleftrightarrow>
     (\<forall>e \<in> set evs. (\<forall>j. G j \<longrightarrow> \<not> admits e j) \<and> (np \<longrightarrow> \<not> is_preconnect e))"

definition silenced :: "(PreresolveJobId \<Rightarrow> bool) \<Rightarrow> info_ptr \<Rightarrow> bool \<Rightarrow> manager \<Rightarrow> bool" where
  "silenced G p np s \<longleftrightarrow> stopped G p s \<and> silent G np (calls s)"

definition after_stop ::
  "(PreresolveJobId \<Rightarrow> bool) \<Rightarrow> (op \<times> event list) \<Rightarrow> bool" where
  "after_stop G h \<longleftrightarrow>
     silent G (case fst h of OpCallback j b \<Rightarrow> G j | _ \<Rightarrow> False) (snd h)"

text \<open>
  For the life of a job: \<open>issued_ids\<close> are the jobs a list of calls hands a callback
  out for, \<open>n_sockets\<close> counts the calls of \<open>PreconnectSockets\<close>; \<open>admissions\<close> and
  \<open>callbacks\<close> count, in a history, the resolves issued for a job and the turns that ran
  its callback. \<open>tidy\<close>, \<open>within\<close> and \<open>orderly\<close> relate, inside a turn, the queue,
  the callbacks handed out so far and the job table; \<open>accounted\<close> is the invariant
  between turns; \<open>gone\<close> says that an id was handed out and is no longer in the table.
\<close>

definition issued_ids :: "event list \<Rightarrow> PreresolveJobId list" where
  "issued_ids evs = map fst (concat (map issued evs))"

fun is_socket :: "event \<Rightarrow> bool" where
  "is_socket (PreconnectSockets n u f b) = True"
| "is_socket (OnPreconnectUrl u n b) = False"
| "is_socket (ResolveHost u j) = False"
| "is_socket (PostTask j b) = False"
| "is_socket (OnPreresolveUrl u) = False"
| "is_socket (OnPreresolveFinished u b) = False"
| "is_socket (PreconnectFinished st) = False"

definition n_sockets :: "event list \<Rightarrow> nat" where
  "n_sockets evs = length (filter is_socket evs)"

definition tidy ::
  "PreresolveJobId list \<Rightarrow> PreresolveJobId list \<Rightarrow> PreresolveJobId list \<Rightarrow> IDMap \<Rightarrow> bool" where
  "tidy P q ids t \<longleftrightarrow>
     distinct (q @ ids @ P) \<and> dom (data t) = set q \<union> set ids \<union> set P \<and>
     (\<forall>j \<in> dom (data t). j < next_id t)"

definition within ::
  "PreresolveJobId set \<Rightarrow> nat \<Rightarrow> PreresolveJobId list \<Rightarrow> PreresolveJobId list \<Rightarrow> IDMap \<Rightarrow> bool"
  where
  "within B n q ids t \<longleftrightarrow> n \<le> next_id t \<and> set q \<union> set ids \<subseteq> B \<union> {n ..< next_id t}"

definition orderly ::
  "PreresolveJobId list \<Rightarrow> PreresolveJobId set \<Rightarrow> nat \<Rightarrow> nat \<Rightarrow> manager \<Rightarrow> bool" where
  "orderly P B n k s \<longleftrightarrow>
     tidy P (queued_jobs s) (issued_ids (calls s)) (preresolve_jobs s) \<and>
     within B n (queued_jobs s) (issued_ids (calls s)) (preresolve_jobs s) \<and>
     n_sockets (calls s) \<le> k"

definition remaining :: "op \<Rightarrow> PreresolveJobId list \<Rightarrow> PreresolveJobId list" where
  "remaining x P = (case x of OpCallback j b \<Rightarrow> remove1 j P | _ \<Rightarrow> P)"

fun callback_of :: "PreresolveJobId \<Rightarrow> op \<Rightarrow> bool" where
  "callback_of j (OpCallback k b) = (k = j)"
| "callback_of j (OpStart u rs now) = False"
| "callback_of j (OpStartPreresolveHost u) = False"
| "callback_of j (OpStartPreresolveHosts hs) = False"
| "callback_of j (OpStartPreconnectUrl u cred) = False"
| "callback_of j (OpStop u) = False"
| "callback_of j OpDelegateDestroyed = False"
| "callback_of j (OpNetworkContext ctx) = False"
| "callback_of j (OpSetObserverForTesting b) = False"
| "callback_of j (OpSetNetworkContextForTesting ctx) = False"

definition admissions :: "(op \<times> event list) list \<Rightarrow> PreresolveJobId \<Rightarrow> nat" where
  "admissions H j = length (filter (\<lambda>e. admits e j) (concat (map snd H)))"

definition callbacks :: "(op \<times> event list) list \<Rightarrow> PreresolveJobId \<Rightarrow> nat" where
  "callbacks H j = length (filter (\<lambda>h. callback_of j (fst h)) H)"

definition accounted :: "world \<Rightarrow> bool" where
  "accounted w \<longleftrightarrow>
     distinct (queued_jobs (mgr w) @ map fst (pending w)) \<and>
     dom (data (preresolve_jobs (mgr w))) =
       set (queued_jobs (mgr w)) \<union> set (map fst (pending w)) \<and>
     (\<forall>j \<in> dom (data (preresolve_jobs (mgr w))). j < next_id (preresolve_jobs (mgr w))) \<and>
     (\<forall>j. admissions (history w) j =
            callbacks (history w) j + (if j \<in> set (map fst (pending w)) then 1 else 0)) \<and>
     (\<forall>j. callbacks (history w) j \<le> 1) \<and>
     (\<forall>j. j \<in> dom (data (preresolve_jobs (mgr w))) \<or> next_id (preresolve_jobs (mgr w)) \<le> j
            \<longrightarrow> callbacks (history w) j = 0) \<and>
     (\<forall>h \<in> set (history w). n_sockets (snd h) \<le> (if is_callback (fst h) then 1 else 0))"


text \<open>
  For runs that never fail: \<open>pointer_of t j\<close> is the \<open>info\<close> pointer of job \<open>j\<close>,
  and \<open>members t p js\<close> counts the jobs of \<open>js\<close> that point to \<open>p\<close>.
  \<open>attached q fl t m h\<close>: every group in the heap is the one \<open>preresolve_info\<close> has
  for its host, its two counters are the numbers of its jobs in the queue \<open>q\<close> and in
  flight \<open>fl\<close>, every entry of \<open>preresolve_info\<close> points to a group in the heap, and
  so does every job of a group. \<open>checked\<close>: where \<open>DCHECK\<close> is compiled in, the url of
  every job is an HTTP or HTTPS origin. \<open>sound c P\<close> is the invariant inside a turn, with
  \<open>P\<close> the jobs whose callback was outstanding before it and has not run; \<open>safe\<close> is the
  invariant between turns. \<open>well_formed\<close>: what the \<open>DCHECK\<close>s ask of the caller of
  \<open>Start\<close>.
\<close>

definition pointer_of :: "IDMap \<Rightarrow> PreresolveJobId \<Rightarrow> info_ptr option" where
  "pointer_of t j = (case data t j of None \<Rightarrow> None | Some job \<Rightarrow> info job)"

definition members :: "IDMap \<Rightarrow> info_ptr \<Rightarrow> PreresolveJobId list \<Rightarrow> nat" where
  "members t p js = length (filter (\<lambda>j. pointer_of t j = Some p) js)"

definition attached ::
  "PreresolveJobId list \<Rightarrow> PreresolveJobId list \<Rightarrow> IDMap \<Rightarrow> (string \<rightharpoonup> info_ptr) \<Rightarrow>
   (info_ptr \<rightharpoonup> PreresolveInfo) \<Rightarrow> bool" where
  "attached q fl t m h \<longleftrightarrow>
     (\<forall>p i. h p = Some i \<longrightarrow>
        m (host (info_url i)) = Some p \<and>
        unat (queued_count i) = members t p q \<and> unat (inflight_count i) = members t p fl) \<and>
     (\<forall>k p. m k = Some p \<longrightarrow> (\<exists>i. h p = Some i \<and> host (info_url i) = k)) \<and>
     (\<forall>j p. pointer_of t j = Some p \<longrightarrow> h p \<noteq> None)"

definition checked :: "config \<Rightarrow> IDMap \<Rightarrow> bool" where
  "checked c t \<longleftrightarrow>
     (dcheck_is_on c \<longrightarrow>
        (\<forall>j job. data t j = Some job \<longrightarrow>
           GetOrigin (job_url job) = job_url job \<and> SchemeIsHTTPOrHTTPS (job_url job)))"

definition sound :: "config \<Rightarrow> PreresolveJobId list \<Rightarrow> manager \<Rightarrow> bool" where
  "sound c P s \<longleftrightarrow>
     tidy P (queued_jobs s) (issued_ids (calls s)) (preresolve_jobs s) \<and>
     inflight_preresolves_count s \<le> kMaxInflightPreresolves c \<and>
     unat (inflight_preresolves_count s) = length (issued_ids (calls s) @ P) \<and>
     attached (queued_jobs s) (issued_ids (calls s) @ P) (preresolve_jobs s)
       (preresolve_info s) (heap s) \<and>
     (\<forall>p. heap s p \<noteq> None \<longrightarrow> p < next_ptr s) \<and>
     checked c (preresolve_jobs s)"

definition well_formed :: "config \<Rightarrow> op \<Rightarrow> bool" where
  "well_formed c x =
     (case x of
        OpStart u requests now \<Rightarrow>
          dcheck_is_on c \<longrightarrow>
            list_all (\<lambda>r. GetOrigin (req_origin r) = req_origin r \<and>
                          SchemeIsHTTPOrHTTPS (req_origin r) \<and> 0 \<le> req_num_sockets r)
              requests
      | _ \<Rightarrow> True)"

definition safe :: "config \<Rightarrow> world \<Rightarrow> bool" where
  "safe c w = sound c (map fst (pending w)) ((mgr w)\<lparr>calls := []\<rparr>)"

text \<open>
  For the end of every job: \<open>settled\<close> says that the loop of
  \<open>TryToLaunchPreresolveJobs\<close> has run until the queue was empty or no slot was free;
  \<open>drain n\<close> lets the network layer and the task runner run up to \<open>n\<close> of the
  callbacks they hold, the oldest first, a resolve request coming back with success.
\<close>

definition settled :: "config \<Rightarrow> manager \<Rightarrow> bool" where
  "settled c s \<longleftrightarrow>
     queued_jobs s = [] \<or> \<not> inflight_preresolves_count s < kMaxInflightPreresolves c"

definition next_callback :: "world \<Rightarrow> op" where
  "next_callback w =
     (case hd (pending w) of (j, None) \<Rightarrow> OpCallback j True | (j, Some b) \<Rightarrow> OpCallback j b)"

fun drain :: "nat \<Rightarrow> config \<Rightarrow> world \<Rightarrow> error + world" where
  "drain 0 c w = Inr w"
| "drain (Suc n) c w =
     (if pending w = [] then Inr w
      else case turn c w (next_callback w) of Inl e \<Rightarrow> Inl e | Inr w' \<Rightarrow> drain n c w')"

text \<open>
  For the order of admission: \<open>admitted H\<close> lists the jobs a history issued a resolve
  for, in the order of the calls. \<open>ordered L A\<close>, inside a turn: the jobs of \<open>L\<close>
  admitted before the turn (\<open>A\<close>), then those admitted in it, then those still in the
  queue, are \<open>L\<close> itself, and the jobs of \<open>L\<close> have no group. \<open>lined L k\<close> is the
  same between turns, for the history from its \<open>k\<close>-th turn on.
\<close>

definition admitted :: "(op \<times> event list) list \<Rightarrow> PreresolveJobId list" where
  "admitted H = issued_ids (concat (map snd H))"

definition ordered :: "PreresolveJobId list \<Rightarrow> PreresolveJobId list \<Rightarrow> manager \<Rightarrow> bool" where
  "ordered L A s \<longleftrightarrow>
     A @ filter (\<lambda>j. j \<in> set L) (issued_ids (calls s)) @
         filter (\<lambda>j. j \<in> set L) (queued_jobs s) = L \<and>
     (\<forall>j \<in> set L. j < next_id (preresolve_jobs s) \<and> pointer_of (preresolve_jobs s) j = None)"

definition lined :: "PreresolveJobId list \<Rightarrow> nat \<Rightarrow> world \<Rightarrow> bool" where
  "lined L k w \<longleftrightarrow>
     k \<le> length (history w) \<and>
     ordered L (filter (\<lambda>j. j \<in> set L) (admitted (drop k (history w))))
       ((mgr w)\<lparr>calls := []\<rparr>)"

section \<open>Basic facts\<close>

lemma and_then_Inr_iff:
  "and_then m f = Inr y \<longleftrightarrow> (\<exists>x. m = Inr x \<and> f x = Inr y)"
  by (cases m) (simp_all add: and_then_def)

lemma and_then_simps [simp]:
  "and_then (Inr x) f = f x"
  "and_then (Inl e) f = Inl e"
  by (simp_all add: and_then_def)

lemma DCHECK_Inr_iff: "DCHECK c b = Inr u \<longleftrightarrow> (dcheck_is_on c \<longrightarrow> b)"
  by (simp add: DCHECK_def)

lemma DCHECK_ok: "(dcheck_is_on c \<Longrightarrow> b) \<Longrightarrow> DCHECK c b = Inr ()"
  by (auto simp: DCHECK_def)

lemmas eval_defs = turn_def Start_def StartPreresolveHost_def StartPreresolveHosts_def
  StartPreconnectUrl_def Stop_def OnPreresolveFinished_cb_def FinishPreresolve_def
  AllPreresolvesForUrlFinished_def finish_if_done_def TryToLaunchPreresolveJobs.simps
  launch_job_def PreresolveUrl_def PreconnectUrl_def GetNetworkContext_def
  load_attributes_def info_canceled_def set_client_def push_front_job_def
  new_PreresolveJob_def new_PreresolveInfo_def compute_need_preconnect_def
  site_for_cookies_of_def add_stats_def is_done_def need_preconnect_def if_info_def
  modify_info_def deref_def notify_def emit_def DCHECK_def IDMap_Add_def IDMap_Lookup_def
  IDMap_Remove_def GetOrigin_def SchemeIsHTTPOrHTTPS_def GURL_http_def GURL_empty_def
  kAllowCredentialsOnPreconnectByDefault_def new_world_def PreconnectManager_def
  trace_of_def manager_of_def cfg1_def cfg3_def cfg4_def url_x_def url_u_def url_ftp_def req_r_def

lemma GetNetworkContext_emit [simp]: "GetNetworkContext (emit e s) = GetNetworkContext s"
  by (simp add: GetNetworkContext_def emit_def split: option.splits)

lemma GetNetworkContext_notify [simp]: "GetNetworkContext (notify e s) = GetNetworkContext s"
  by (simp add: notify_def)

lemma heap_emit [simp]: "heap (emit e s) = heap s"
  by (simp add: emit_def)

lemma heap_notify [simp]: "heap (notify e s) = heap s"
  by (simp add: notify_def)

lemma PreconnectUrl_heap:
  "PreconnectUrl c u site n cred s = Inr s' \<Longrightarrow> heap s' = heap s"
  by (auto simp: PreconnectUrl_def and_then_Inr_iff Let_def split: option.splits)

lemma PreconnectUrl_calls_unconditional:
  "PreconnectUrl c u site n cred s = Inr s' \<Longrightarrow> \<exists>evs. calls s' = calls s @ evs"
  by (auto simp: PreconnectUrl_def and_then_Inr_iff Let_def notify_def emit_def
      split: option.splits if_splits)

section \<open>What each function does to the state\<close>

lemma n_issued_simps [simp]:
  "n_issued [] = 0"
  "n_issued (xs @ ys) = n_issued xs + n_issued ys"
  "n_issued (e # xs) = length (issued e) + n_issued xs"
  by (simp_all add: n_issued_def)

lemma word_inc:
  fixes x k :: "'a::len word"
  assumes "x < k"
  shows "unat (x + 1) = Suc (unat x)" and "x + 1 \<le> k"
proof -
  from assms have "x + 1 \<noteq> 0"
    by (metis add.commute add_diff_cancel_left' diff_0 max_word_max not_less word_order.not_eq_extremum)
  then show "unat (x + 1) = Suc (unat x)"
    using unatSuc [of x] by (simp add: add.commute)
  from assms show "x + 1 \<le> k"
    by (rule inc_le)
qed

lemma word_dec:
  fixes x k :: "'a::len word"
  assumes "x \<noteq> 0"
  shows "unat (x - 1) = unat x - 1" and "x \<le> k \<Longrightarrow> x - 1 \<le> k"
proof -
  from assms show u: "unat (x - 1) = unat x - 1"
    by (rule unat_minus_one)
  assume "x \<le> k"
  with u show "x - 1 \<le> k"
    by (simp add: word_le_nat_alt)
qed

lemma issued_resolve_calls:
  "concat (map issued (resolve_calls s u j)) =
     [(j, case GetNetworkContext s of None \<Rightarrow> Some False | Some ctx \<Rightarrow> None)]"
  by (simp add: resolve_calls_def split: option.splits)

lemma n_issued_resolve_calls [simp]: "n_issued (resolve_calls s u j) = 1"
  by (simp add: n_issued_def issued_resolve_calls)

lemma GetNetworkContext_update [simp]:
  "GetNetworkContext (s\<lparr>calls := a\<rparr>) = GetNetworkContext s"
  "GetNetworkContext (s\<lparr>heap := b\<rparr>) = GetNetworkContext s"
  "GetNetworkContext (s\<lparr>preresolve_jobs := d\<rparr>) = GetNetworkContext s"
  "GetNetworkContext (s\<lparr>queued_jobs := e\<rparr>) = GetNetworkContext s"
  "GetNetworkContext (s\<lparr>preresolve_info := f\<rparr>) = GetNetworkContext s"
  "GetNetworkContext (s\<lparr>next_ptr := g\<rparr>) = GetNetworkContext s"
  "GetNetworkContext (s\<lparr>inflight_preresolves_count := h\<rparr>) = GetNetworkContext s"
  "GetNetworkContext (s\<lparr>delegate := k\<rparr>) = GetNetworkContext s"
  "GetNetworkContext (s\<lparr>observer := l\<rparr>) = GetNetworkContext s"
  by (simp_all add: GetNetworkContext_def split: option.splits)

lemma modify_info_Inr:
  "modify_info p f s = Inr s' \<longleftrightarrow>
     (\<exists>i. heap s p = Some i \<and> s' = s\<lparr>heap := (heap s)(p \<mapsto> f i)\<rparr>)"
  by (auto simp: modify_info_def split: option.splits)

lemma if_info_None [simp]: "if_info None f s = Inr s"
  by (simp add: if_info_def)

lemma if_info_Some_Inr:
  "if_info (Some p) f s = Inr s' \<longleftrightarrow>
     (\<exists>i. heap s p = Some i \<and> s' = s\<lparr>heap := (heap s)(p \<mapsto> f i)\<rparr>)"
  by (simp add: if_info_def modify_info_Inr)

lemma info_canceled_None [simp]: "info_canceled s None = Inr False"
  by (simp add: info_canceled_def)

lemma info_canceled_Some_Inr:
  "info_canceled s (Some p) = Inr b \<longleftrightarrow> (\<exists>i. heap s p = Some i \<and> b = was_canceled i)"
  by (auto simp: info_canceled_def deref_def split: option.splits)

lemma PreresolveUrl_Inr:
  "PreresolveUrl c u j s = Inr (cl, s') \<Longrightarrow>
     cl = GetNetworkContext s \<and> s' = s\<lparr>calls := calls s @ resolve_calls s u j\<rparr>"
  by (auto simp: PreresolveUrl_def and_then_Inr_iff Let_def notify_def emit_def
        resolve_calls_def
      split: option.splits if_splits)

lemma launch_job_cases [consumes 1, case_names adhoc grouped dropped]:
  assumes "launch_job c j s = Inr s'"
  obtains
    (adhoc) job where
      "data (preresolve_jobs s) j = Some job" "info job = None"
      "s' = s\<lparr>calls := calls s @ resolve_calls s (job_url job) j,
              preresolve_jobs := (preresolve_jobs s)
                \<lparr>data := (data (preresolve_jobs s))
                   (j \<mapsto> job\<lparr>resolve_host_client := GetNetworkContext s\<rparr>)\<rparr>,
              inflight_preresolves_count := inflight_preresolves_count s + 1\<rparr>"
  | (grouped) job p i where
      "data (preresolve_jobs s) j = Some job" "info job = Some p" "heap s p = Some i"
      "\<not> was_canceled i"
      "s' = s\<lparr>calls := calls s @ resolve_calls s (job_url job) j,
              preresolve_jobs := (preresolve_jobs s)
                \<lparr>data := (data (preresolve_jobs s))
                   (j \<mapsto> job\<lparr>resolve_host_client := GetNetworkContext s\<rparr>)\<rparr>,
              heap := (heap s)(p \<mapsto> i\<lparr>inflight_count := inflight_count i + 1,
                                       queued_count := queued_count i - 1\<rparr>),
              inflight_preresolves_count := inflight_preresolves_count s + 1\<rparr>"
  | (dropped) job p i where
      "data (preresolve_jobs s) j = Some job" "info job = Some p" "heap s p = Some i"
      "was_canceled i"
      "s' = s\<lparr>preresolve_jobs := IDMap_Remove j (preresolve_jobs s),
              heap := (heap s)(p \<mapsto> i\<lparr>queued_count := queued_count i - 1\<rparr>)\<rparr>"
proof -
  from assms obtain job where job: "data (preresolve_jobs s) j = Some job"
    by (auto simp: launch_job_def IDMap_Lookup_def split: option.splits)
  show thesis
  proof (cases "info job")
    case None
    with assms job have
      "s' = s\<lparr>calls := calls s @ resolve_calls s (job_url job) j,
              preresolve_jobs := (preresolve_jobs s)
                \<lparr>data := (data (preresolve_jobs s))
                   (j \<mapsto> job\<lparr>resolve_host_client := GetNetworkContext s\<rparr>)\<rparr>,
              inflight_preresolves_count := inflight_preresolves_count s + 1\<rparr>"
      by (auto simp: launch_job_def IDMap_Lookup_def and_then_Inr_iff set_client_def
          dest!: PreresolveUrl_Inr)
    with job None show ?thesis
      by (rule adhoc)
  next
    case (Some p)
    with assms job obtain i where i: "heap s p = Some i"
      by (auto simp: launch_job_def IDMap_Lookup_def and_then_Inr_iff info_canceled_Some_Inr)
    show ?thesis
    proof (cases "was_canceled i")
      case True
      with assms job Some i have
        "s' = s\<lparr>preresolve_jobs := IDMap_Remove j (preresolve_jobs s),
              heap := (heap s)(p \<mapsto> i\<lparr>queued_count := queued_count i - 1\<rparr>)\<rparr>"
        by (auto simp: launch_job_def IDMap_Lookup_def and_then_Inr_iff
              info_canceled_Some_Inr if_info_Some_Inr IDMap_Remove_def)
      with job Some i True show ?thesis
        by (rule dropped)
    next
      case False
      with assms job Some i have
        "s' = s\<lparr>calls := calls s @ resolve_calls s (job_url job) j,
              preresolve_jobs := (preresolve_jobs s)
                \<lparr>data := (data (preresolve_jobs s))
                   (j \<mapsto> job\<lparr>resolve_host_client := GetNetworkContext s\<rparr>)\<rparr>,
              heap := (heap s)(p \<mapsto> i\<lparr>inflight_count := inflight_count i + 1,
                                       queued_count := queued_count i - 1\<rparr>),
              inflight_preresolves_count := inflight_preresolves_count s + 1\<rparr>"
        by (auto simp: launch_job_def IDMap_Lookup_def and_then_Inr_iff
              info_canceled_Some_Inr if_info_Some_Inr set_client_def
            dest!: PreresolveUrl_Inr)
      with job Some i False show ?thesis
        by (rule grouped)
    qed
  qed
qed

lemma TryToLaunch_invariant:
  assumes "TryToLaunchPreresolveJobs c s = Inr s'"
    and "P s"
    and step: "\<And>s j rest s1. P s \<Longrightarrow> queued_jobs s = j # rest \<Longrightarrow>
           inflight_preresolves_count s < kMaxInflightPreresolves c \<Longrightarrow>
           launch_job c j (s\<lparr>queued_jobs := rest\<rparr>) = Inr s1 \<Longrightarrow> P s1"
  shows "P s'"
  using assms
proof (induction c s rule: TryToLaunchPreresolveJobs.induct)
  case (1 c s)
  show ?case
  proof (cases "queued_jobs s")
    case Nil
    with "1.prems" show ?thesis
      by (simp add: TryToLaunchPreresolveJobs.simps)
  next
    case (Cons j rest)
    show ?thesis
    proof (cases "inflight_preresolves_count s < kMaxInflightPreresolves c")
      case False
      with Cons "1.prems" show ?thesis
        by (simp add: TryToLaunchPreresolveJobs.simps)
    next
      case True
      with Cons "1.prems"(1) obtain s1 where
        l: "launch_job c j (s\<lparr>queued_jobs := rest\<rparr>) = Inr s1"
        and r: "TryToLaunchPreresolveJobs c s1 = Inr s'"
        by (subst (asm) TryToLaunchPreresolveJobs.simps) (auto split: sum.splits)
      from "1.prems"(3) [OF "1.prems"(2) Cons True l] have "P s1" .
      from "1.IH" [OF Cons True l r this "1.prems"(3)] show ?thesis .
    qed
  qed
qed

lemma n_issued_preconnect_calls [simp]: "n_issued (preconnect_calls c s u n cred) = 0"
  by (simp add: preconnect_calls_def split: option.splits)

lemma PreconnectUrl_Inr:
  "PreconnectUrl c u site n cred s = Inr s' \<Longrightarrow>
     s' = s\<lparr>calls := calls s @ preconnect_calls c s u n cred\<rparr>"
  by (auto simp: PreconnectUrl_def and_then_Inr_iff Let_def notify_def emit_def
        preconnect_calls_def
      split: option.splits if_splits)

lemma FinishPreresolve_cases [consumes 1, case_names failed adhoc grouped]:
  assumes "FinishPreresolve c j found cached s = Inr s'"
  obtains
    (failed) job where
      "data (preresolve_jobs s) j = Some job" "\<not> found"
      "s' = s\<lparr>preresolve_jobs := IDMap_Remove j (preresolve_jobs s)\<rparr>"
  | (adhoc) job where
      "data (preresolve_jobs s) j = Some job" "found" "info job = None"
      "s' = s\<lparr>calls := calls s @
                (if need_preconnect job
                 then preconnect_calls c s (job_url job) (num_sockets job)
                        (allow_credentials job)
                 else []),
              preresolve_jobs := IDMap_Remove j (preresolve_jobs s)\<rparr>"
  | (grouped) job p i where
      "data (preresolve_jobs s) j = Some job" "found" "info job = Some p"
      "heap s p = Some i"
      "s' = s\<lparr>calls := calls s @
                (if need_preconnect job \<and> \<not> was_canceled i
                 then preconnect_calls c s (job_url job) (num_sockets job)
                        (allow_credentials job)
                 else []),
              heap := (heap s)
                (p \<mapsto> add_stats \<lparr>stat_origin = job_url job, was_preresolve_cached = cached,
                           was_preconnected = (need_preconnect job \<and> \<not> was_canceled i)\<rparr> i),
              preresolve_jobs := IDMap_Remove j (preresolve_jobs s)\<rparr>"
proof -
  from assms obtain job where job: "data (preresolve_jobs s) j = Some job"
    by (auto simp: FinishPreresolve_def IDMap_Lookup_def split: option.splits)
  show thesis
  proof (cases found)
    case False
    with assms job have "s' = s\<lparr>preresolve_jobs := IDMap_Remove j (preresolve_jobs s)\<rparr>"
      by (simp add: FinishPreresolve_def IDMap_Lookup_def compute_need_preconnect_def)
    with job False show ?thesis
      by (rule failed)
  next
    case True
    show ?thesis
    proof (cases "info job")
      case None
      with assms job True have
        "s' = s\<lparr>calls := calls s @
                (if need_preconnect job
                 then preconnect_calls c s (job_url job) (num_sockets job)
                        (allow_credentials job)
                 else []),
              preresolve_jobs := IDMap_Remove j (preresolve_jobs s)\<rparr>"
        by (auto simp: FinishPreresolve_def IDMap_Lookup_def compute_need_preconnect_def
              and_then_Inr_iff site_for_cookies_of_def
            split: if_splits dest!: PreconnectUrl_Inr)
      with job True None show ?thesis
        by (rule adhoc)
    next
      case (Some p)
      with assms job True obtain i where i: "heap s p = Some i"
        by (auto simp: FinishPreresolve_def IDMap_Lookup_def compute_need_preconnect_def
              and_then_Inr_iff if_info_Some_Inr info_canceled_Some_Inr
            split: if_splits dest!: PreconnectUrl_Inr)
      with assms job True Some have
        "s' = s\<lparr>calls := calls s @
                (if need_preconnect job \<and> \<not> was_canceled i
                 then preconnect_calls c s (job_url job) (num_sockets job)
                        (allow_credentials job)
                 else []),
              heap := (heap s)
                (p \<mapsto> add_stats \<lparr>stat_origin = job_url job, was_preresolve_cached = cached,
                           was_preconnected = (need_preconnect job \<and> \<not> was_canceled i)\<rparr> i),
              preresolve_jobs := IDMap_Remove j (preresolve_jobs s)\<rparr>"
        by (auto simp: FinishPreresolve_def IDMap_Lookup_def compute_need_preconnect_def
              and_then_Inr_iff if_info_Some_Inr info_canceled_Some_Inr
              site_for_cookies_of_def deref_def
            split: if_splits dest!: PreconnectUrl_Inr)
      with job True Some i show ?thesis
        by (rule grouped)
    qed
  qed
qed

lemma finish_if_done_cases [consumes 1, case_names no_info unfinished finalised]:
  assumes "finish_if_done c ip s = Inr s'"
  obtains
    (no_info) "ip = None" "s' = s"
  | (unfinished) p i where "ip = Some p" "heap s p = Some i" "\<not> is_done i" "s' = s"
  | (finalised) p i q where "ip = Some p" "heap s p = Some i" "is_done i"
      "preresolve_info s (host (info_url i)) = Some q" "dcheck_is_on c \<Longrightarrow> q = p"
      "s' = s\<lparr>calls := calls s @ (if delegate s then [PreconnectFinished (stats i)] else []),
              preresolve_info := (preresolve_info s)(host (info_url i) := None),
              heap := (heap s)(q := None)\<rparr>"
proof (cases ip)
  case None
  with assms have "s' = s"
    by (simp add: finish_if_done_def)
  with None show ?thesis
    by (rule no_info)
next
  case (Some p)
  with assms obtain i where i: "heap s p = Some i"
    by (auto simp: finish_if_done_def deref_def and_then_Inr_iff split: option.splits)
  show ?thesis
  proof (cases "is_done i")
    case False
    with assms Some i have "s' = s"
      by (simp add: finish_if_done_def deref_def)
    with Some i False show ?thesis
      by (rule unfinished)
  next
    case True
    with assms Some i obtain q where
      q: "preresolve_info s (host (info_url i)) = Some q" "dcheck_is_on c \<Longrightarrow> q = p"
      and s': "s' = s\<lparr>calls := calls s @ (if delegate s then [PreconnectFinished (stats i)] else []),
              preresolve_info := (preresolve_info s)(host (info_url i) := None),
              heap := (heap s)(q := None)\<rparr>"
      by (auto simp: finish_if_done_def deref_def AllPreresolvesForUrlFinished_def
            and_then_Inr_iff DCHECK_Inr_iff emit_def Let_def
          split: option.splits if_splits)
    from Some i True q s' show ?thesis
      by (rule finalised)
  qed
qed

lemma table_with_Nil [simp]: "table_with t [] = t"
  by (cases t) (auto simp: table_with_def fun_eq_iff)

lemma table_with_Cons:
  "table_with t (x # xs) = table_with (snd (IDMap_Add x t)) xs"
  by (auto simp: table_with_def IDMap_Add_def fun_eq_iff nth_Cons' Suc_diff_le
        intro!: arg_cong [where f = "\<lambda>k. xs ! k"])

lemma add_requests_Inr:
  "add_requests c p rs s = Inr s' \<Longrightarrow>
     s' = s\<lparr>preresolve_jobs := table_with (preresolve_jobs s) (map (request_job p) rs),
            queued_jobs := queued_jobs s @
              [next_id (preresolve_jobs s) ..< next_id (preresolve_jobs s) + length rs]\<rparr>"
proof (induction rs arbitrary: s)
  case Nil
  then show ?case by simp
next
  case (Cons r rs)
  let ?t = "snd (IDMap_Add (request_job p r) (preresolve_jobs s))"
  let ?s1 = "s\<lparr>preresolve_jobs := ?t,
              queued_jobs := queued_jobs s @ [next_id (preresolve_jobs s)]\<rparr>"
  from Cons.prems have "add_requests c p rs ?s1 = Inr s'"
    by (auto simp: and_then_Inr_iff new_PreresolveJob_def request_job_def IDMap_Add_def)
  from Cons.IH [OF this] show ?case
    by (simp add: table_with_Cons upt_conv_Cons del: upt_Suc) (simp add: IDMap_Add_def)
qed

lemma push_hosts_Inr:
  "push_hosts c hs s =
     Inr (s\<lparr>preresolve_jobs := table_with (preresolve_jobs s) (map host_job hs),
            queued_jobs := rev [next_id (preresolve_jobs s) ..<
                                next_id (preresolve_jobs s) + length hs] @ queued_jobs s\<rparr>)"
proof (induction hs arbitrary: s)
  case Nil
  then show ?case by simp
next
  case (Cons h hs)
  have nj: "new_PreresolveJob c (GURL_http h) 0 kAllowCredentialsOnPreconnectByDefault None
              = Inr (host_job h)"
    by (simp add: new_PreresolveJob_def DCHECK_def host_job_def)
  show ?case
    by (simp add: nj Cons.IH push_front_job_def table_with_Cons upt_conv_Cons del: upt_Suc)
       (simp add: IDMap_Add_def)
qed

lemma OnPreresolveFinished_cb_cases [consumes 1]:
  assumes "OnPreresolveFinished_cb c j b s = Inr s'"
  obtains job s1 s2 s3 where
    "data (preresolve_jobs s) j = Some job"
    "FinishPreresolve c j b False (notify (OnPreresolveFinished (job_url job) b) s) = Inr s1"
    "if_info (info job) (\<lambda>i. i\<lparr>inflight_count := inflight_count i - 1\<rparr>)
       (s1\<lparr>inflight_preresolves_count := inflight_preresolves_count s1 - 1\<rparr>) = Inr s2"
    "finish_if_done c (info job) s2 = Inr s3"
    "TryToLaunchPreresolveJobs c s3 = Inr s'"
  using assms
  by (auto simp: OnPreresolveFinished_cb_def IDMap_Lookup_def and_then_Inr_iff
      split: option.splits)

lemma push_front_job_eq:
  "push_front_job job s =
     s\<lparr>preresolve_jobs := table_with (preresolve_jobs s) [job],
       queued_jobs := rev [next_id (preresolve_jobs s) ..< next_id (preresolve_jobs s) + length [job]]
                        @ queued_jobs s\<rparr>"
  by (simp add: push_front_job_def table_with_Cons) (simp add: IDMap_Add_def)

lemma new_PreresolveJob_Inr:
  "new_PreresolveJob c u n cred ip = Inr job \<Longrightarrow>
     job = \<lparr>job_url = u, num_sockets = n, allow_credentials = cred, info = ip,
            resolve_host_client = None\<rparr>"
  by (auto simp: new_PreresolveJob_def and_then_Inr_iff)

lemma GetOrigin_idem [simp]: "GetOrigin (GetOrigin u) = GetOrigin u"
  by (simp add: GetOrigin_def)

lemma SchemeIsHTTPOrHTTPS_GetOrigin [simp]:
  "SchemeIsHTTPOrHTTPS (GetOrigin u) = SchemeIsHTTPOrHTTPS u"
  by (simp add: GetOrigin_def SchemeIsHTTPOrHTTPS_def)

lemma host_job_url [simp]:
  "info (host_job h) = None" "GetOrigin (job_url (host_job h)) = job_url (host_job h)"
  "SchemeIsHTTPOrHTTPS (job_url (host_job h))"
  by (simp_all add: host_job_def GetOrigin_def SchemeIsHTTPOrHTTPS_def GURL_http_def)

lemma apply_op_cases [consumes 1, case_names unchanged start front stop callback env]:
  assumes "apply_op c x s = Inr s'"
  obtains
    (unchanged) "s' = s" "\<not> is_callback x"
  | (start) u rs now where
      "x = OpStart u rs now" "preresolve_info s (host u) = None"
      "TryToLaunchPreresolveJobs c
         (s\<lparr>preresolve_info := (preresolve_info s)(host u \<mapsto> next_ptr s),
            heap := (heap s)(next_ptr s \<mapsto> new_PreresolveInfo u (length rs) now),
            next_ptr := next_ptr s + 1,
            preresolve_jobs := table_with (preresolve_jobs s) (map (request_job (next_ptr s)) rs),
            queued_jobs := queued_jobs s @
              [next_id (preresolve_jobs s) ..< next_id (preresolve_jobs s) + length rs]\<rparr>)
       = Inr s'"
  | (front) jobs where
      "\<not> is_callback x"
      "\<forall>job \<in> set jobs. info job = None \<and> GetOrigin (job_url job) = job_url job \<and>
                         SchemeIsHTTPOrHTTPS (job_url job)"
      "TryToLaunchPreresolveJobs c
         (s\<lparr>preresolve_jobs := table_with (preresolve_jobs s) jobs,
            queued_jobs := rev [next_id (preresolve_jobs s) ..<
                                next_id (preresolve_jobs s) + length jobs] @ queued_jobs s\<rparr>)
       = Inr s'"
  | (stop) u p i where
      "x = OpStop u" "preresolve_info s (host u) = Some p" "heap s p = Some i"
      "s' = s\<lparr>heap := (heap s)(p \<mapsto> i\<lparr>was_canceled := True\<rparr>)\<rparr>"
  | (callback) j b job s1 s2 s3 where
      "x = OpCallback j b"
      "data (preresolve_jobs s) j = Some job"
      "FinishPreresolve c j b False (notify (OnPreresolveFinished (job_url job) b) s) = Inr s1"
      "if_info (info job) (\<lambda>i. i\<lparr>inflight_count := inflight_count i - 1\<rparr>)
         (s1\<lparr>inflight_preresolves_count := inflight_preresolves_count s1 - 1\<rparr>) = Inr s2"
      "finish_if_done c (info job) s2 = Inr s3"
      "TryToLaunchPreresolveJobs c s3 = Inr s'"
  | (env) d ob n dn where
      "\<not> is_callback x"
      "s' = s\<lparr>delegate := d, observer := ob, network_context := n,
              default_network_context := dn\<rparr>"
proof (cases x)
  case (OpStart u rs now)
  show ?thesis
  proof (cases "preresolve_info s (host u)")
    case (Some p)
    with assms OpStart have "s' = s" "\<not> is_callback x"
      by (simp_all add: Start_def is_callback_def)
    then show ?thesis
      by (rule unchanged)
  next
    case None
    with assms OpStart obtain s1 where
      a: "add_requests c (next_ptr s) rs
             (s\<lparr>preresolve_info := (preresolve_info s)(host u \<mapsto> next_ptr s),
                heap := (heap s)(next_ptr s \<mapsto> new_PreresolveInfo u (length rs) now),
                next_ptr := next_ptr s + 1\<rparr>) = Inr s1"
      and l: "TryToLaunchPreresolveJobs c s1 = Inr s'"
      by (auto simp: Start_def and_then_Inr_iff)
    from l add_requests_Inr [OF a] have
      "TryToLaunchPreresolveJobs c
         (s\<lparr>preresolve_info := (preresolve_info s)(host u \<mapsto> next_ptr s),
            heap := (heap s)(next_ptr s \<mapsto> new_PreresolveInfo u (length rs) now),
            next_ptr := next_ptr s + 1,
            preresolve_jobs := table_with (preresolve_jobs s) (map (request_job (next_ptr s)) rs),
            queued_jobs := queued_jobs s @
              [next_id (preresolve_jobs s) ..< next_id (preresolve_jobs s) + length rs]\<rparr>)
       = Inr s'"
      by simp
    with OpStart None show ?thesis
      by (rule start)
  qed
next
  case (OpStartPreresolveHost u)
  show ?thesis
  proof (cases "SchemeIsHTTPOrHTTPS u")
    case False
    with assms OpStartPreresolveHost have "s' = s" "\<not> is_callback x"
      by (simp_all add: StartPreresolveHost_def is_callback_def)
    then show ?thesis
      by (rule unchanged)
  next
    case True
    with assms OpStartPreresolveHost obtain job where
      j: "new_PreresolveJob c (GetOrigin u) 0 kAllowCredentialsOnPreconnectByDefault None = Inr job"
      and l: "TryToLaunchPreresolveJobs c (push_front_job job s) = Inr s'"
      by (auto simp: StartPreresolveHost_def and_then_Inr_iff)
    from new_PreresolveJob_Inr [OF j] True have b:
      "\<forall>job \<in> set [job]. info job = None \<and> GetOrigin (job_url job) = job_url job \<and>
                         SchemeIsHTTPOrHTTPS (job_url job)"
      by simp
    from OpStartPreresolveHost have a: "\<not> is_callback x"
      by (simp add: is_callback_def)
    from l have d: "TryToLaunchPreresolveJobs c
         (s\<lparr>preresolve_jobs := table_with (preresolve_jobs s) [job],
            queued_jobs := rev [next_id (preresolve_jobs s) ..<
                                next_id (preresolve_jobs s) + length [job]] @ queued_jobs s\<rparr>)
       = Inr s'"
      by (simp only: push_front_job_eq)
    show ?thesis
      by (rule front [OF a b d])
  qed
next
  case (OpStartPreresolveHosts hs)
  with assms have d:
    "TryToLaunchPreresolveJobs c
         (s\<lparr>preresolve_jobs := table_with (preresolve_jobs s) (map host_job (rev hs)),
            queued_jobs := rev [next_id (preresolve_jobs s) ..<
                  next_id (preresolve_jobs s) + length (map host_job (rev hs))] @ queued_jobs s\<rparr>)
        = Inr s'"
    by (simp add: StartPreresolveHosts_def push_hosts_Inr)
  have b: "\<forall>job \<in> set (map host_job (rev hs)).
      info job = None \<and> GetOrigin (job_url job) = job_url job \<and>
      SchemeIsHTTPOrHTTPS (job_url job)"
    by simp
  from OpStartPreresolveHosts have a: "\<not> is_callback x"
    by (simp add: is_callback_def)
  show ?thesis
    by (rule front [OF a b d])
next
  case (OpStartPreconnectUrl u cred)
  show ?thesis
  proof (cases "SchemeIsHTTPOrHTTPS u")
    case False
    with assms OpStartPreconnectUrl have "s' = s" "\<not> is_callback x"
      by (simp_all add: StartPreconnectUrl_def is_callback_def)
    then show ?thesis
      by (rule unchanged)
  next
    case True
    with assms OpStartPreconnectUrl obtain job where
      j: "new_PreresolveJob c (GetOrigin u) 1 cred None = Inr job"
      and l: "TryToLaunchPreresolveJobs c (push_front_job job s) = Inr s'"
      by (auto simp: StartPreconnectUrl_def and_then_Inr_iff)
    from new_PreresolveJob_Inr [OF j] True have b:
      "\<forall>job \<in> set [job]. info job = None \<and> GetOrigin (job_url job) = job_url job \<and>
                         SchemeIsHTTPOrHTTPS (job_url job)"
      by simp
    from OpStartPreconnectUrl have a: "\<not> is_callback x"
      by (simp add: is_callback_def)
    from l have d: "TryToLaunchPreresolveJobs c
         (s\<lparr>preresolve_jobs := table_with (preresolve_jobs s) [job],
            queued_jobs := rev [next_id (preresolve_jobs s) ..<
                                next_id (preresolve_jobs s) + length [job]] @ queued_jobs s\<rparr>)
       = Inr s'"
      by (simp only: push_front_job_eq)
    show ?thesis
      by (rule front [OF a b d])
  qed
next
  case (OpStop u)
  show ?thesis
  proof (cases "preresolve_info s (host u)")
    case None
    with assms OpStop have "s' = s" "\<not> is_callback x"
      by (simp_all add: Stop_def is_callback_def)
    then show ?thesis
      by (rule unchanged)
  next
    case (Some p)
    with assms OpStop obtain i where "heap s p = Some i"
      "s' = s\<lparr>heap := (heap s)(p \<mapsto> i\<lparr>was_canceled := True\<rparr>)\<rparr>"
      by (auto simp: Stop_def modify_info_Inr)
    with OpStop Some show ?thesis
      by (rule stop)
  qed
next
  case (OpCallback j b)
  with assms have "OnPreresolveFinished_cb c j b s = Inr s'"
    by simp
  then show ?thesis
    by (cases rule: OnPreresolveFinished_cb_cases) (rule callback [OF OpCallback])
next
  case OpDelegateDestroyed
  with assms have "\<not> is_callback x"
    "s' = s\<lparr>delegate := False, observer := observer s, network_context := network_context s,
            default_network_context := default_network_context s\<rparr>"
    by (auto simp: is_callback_def)
  then show ?thesis
    by (rule env)
next
  case (OpNetworkContext ctx)
  with assms have "\<not> is_callback x"
    "s' = s\<lparr>delegate := delegate s, observer := observer s, network_context := network_context s,
            default_network_context := ctx\<rparr>"
    by (auto simp: is_callback_def)
  then show ?thesis
    by (rule env)
next
  case (OpSetObserverForTesting b)
  with assms have "\<not> is_callback x"
    "s' = s\<lparr>delegate := delegate s, observer := b, network_context := network_context s,
            default_network_context := default_network_context s\<rparr>"
    by (auto simp: is_callback_def)
  then show ?thesis
    by (rule env)
next
  case (OpSetNetworkContextForTesting ctx)
  with assms have "\<not> is_callback x"
    "s' = s\<lparr>delegate := delegate s, observer := observer s, network_context := ctx,
            default_network_context := default_network_context s\<rparr>"
    by (auto simp: is_callback_def)
  then show ?thesis
    by (rule env)
qed

lemma silent_simps [simp]:
  "silent G np []"
  "silent G np (xs @ ys) \<longleftrightarrow> silent G np xs \<and> silent G np ys"
  by (auto simp: silent_def)

lemma silent_resolve_calls [simp]:
  "silent G np (resolve_calls s u j) \<longleftrightarrow> \<not> G j"
  by (auto simp: silent_def resolve_calls_def split: option.splits)

lemma silent_preconnect_calls:
  "\<not> np \<Longrightarrow> silent G np (preconnect_calls c s u n cred)"
  by (auto simp: silent_def preconnect_calls_def split: option.splits)

lemma table_with_old:
  "j < next_id t \<Longrightarrow> data (table_with t jobs) j = data t j"
  by (simp add: table_with_def)

lemma next_id_table_with [simp]:
  "next_id (table_with t jobs) = next_id t + length jobs"
  by (simp add: table_with_def)

lemma table_with_new:
  "data (table_with t jobs) j = Some job \<Longrightarrow> data t j = Some job \<or>
     (next_id t \<le> j \<and> j < next_id t + length jobs \<and> job = jobs ! (j - next_id t))"
  by (auto simp: table_with_def split: if_splits)

lemma turn_cases [consumes 1]:
  assumes "turn c w x = Inr w'"
  obtains m where "enabled w x" "apply_op c x ((mgr w)\<lparr>calls := []\<rparr>) = Inr m"
    "w' = \<lparr>mgr = m, pending = delivered x (pending w) @ concat (map issued (calls m)),
           history = history w @ [(x, calls m)]\<rparr>"
  using assms by (auto simp: turn_def split: if_splits sum.splits)

lemma PreresolveUrl_total:
  assumes "dcheck_is_on c \<Longrightarrow> GetOrigin u = u \<and> SchemeIsHTTPOrHTTPS u"
  shows "PreresolveUrl c u j s =
           Inr (GetNetworkContext s, s\<lparr>calls := calls s @ resolve_calls s u j\<rparr>)"
proof -
  have d: "DCHECK c (GetOrigin u = u) = Inr ()" "DCHECK c (SchemeIsHTTPOrHTTPS u) = Inr ()"
    using assms by (auto simp: DCHECK_def)
  show ?thesis
    by (simp add: PreresolveUrl_def d Let_def resolve_calls_def notify_def emit_def
          split: option.splits)
qed

lemma PreconnectUrl_total:
  assumes "dcheck_is_on c \<Longrightarrow> GetOrigin u = u \<and> SchemeIsHTTPOrHTTPS u"
  shows "PreconnectUrl c u site n cred s =
           Inr (s\<lparr>calls := calls s @ preconnect_calls c s u n cred\<rparr>)"
proof -
  have d: "DCHECK c (GetOrigin u = u) = Inr ()" "DCHECK c (SchemeIsHTTPOrHTTPS u) = Inr ()"
    using assms by (auto simp: DCHECK_def)
  show ?thesis
    by (simp add: PreconnectUrl_def d Let_def preconnect_calls_def notify_def emit_def
          split: option.splits)
qed

section \<open>Identifiers are never reused\<close>

lemma launch_job_bounded:
  "launch_job c j s = Inr s' \<Longrightarrow> bounded s \<Longrightarrow> bounded s'"
  by (erule launch_job_cases) (auto simp: bounded_def IDMap_Remove_def split: if_splits)

lemma TryToLaunch_bounded:
  assumes "TryToLaunchPreresolveJobs c s = Inr s'" and "bounded s"
  shows "bounded s'"
proof (rule TryToLaunch_invariant [OF assms(1), where P = bounded])
  show "bounded s" by fact
next
  fix x j rest s1
  assume "bounded x" and "launch_job c j (x\<lparr>queued_jobs := rest\<rparr>) = Inr s1"
  from launch_job_bounded [OF this(2)] this(1) show "bounded s1"
    by (simp add: bounded_def)
qed

lemma FinishPreresolve_bounded:
  "FinishPreresolve c j b cached s = Inr s' \<Longrightarrow> bounded s \<Longrightarrow> bounded s'"
  by (erule FinishPreresolve_cases) (auto simp: bounded_def IDMap_Remove_def split: if_splits)

lemma if_info_bounded:
  "if_info ip f s = Inr s' \<Longrightarrow> bounded s \<Longrightarrow> bounded s'"
  by (cases ip) (auto simp: if_info_Some_Inr bounded_def split: if_splits)

lemma finish_if_done_bounded:
  "finish_if_done c ip s = Inr s' \<Longrightarrow> bounded s \<Longrightarrow> bounded s'"
  by (erule finish_if_done_cases) (auto simp: bounded_def split: if_splits)

lemma apply_op_bounded:
  assumes "apply_op c x s = Inr s'" and "bounded s"
  shows "bounded s'"
  using assms(1)
proof (cases rule: apply_op_cases)
  case unchanged
  with assms(2) show ?thesis by simp
next
  case (start u rs now)
  show ?thesis
  proof (rule TryToLaunch_bounded [OF start(3)])
    show "bounded (s\<lparr>preresolve_info := (preresolve_info s)(host u \<mapsto> next_ptr s),
            heap := (heap s)(next_ptr s \<mapsto> new_PreresolveInfo u (length rs) now),
            next_ptr := next_ptr s + 1,
            preresolve_jobs := table_with (preresolve_jobs s) (map (request_job (next_ptr s)) rs),
            queued_jobs := queued_jobs s @
              [next_id (preresolve_jobs s) ..< next_id (preresolve_jobs s) + length rs]\<rparr>)"
      using assms(2) by (auto simp: bounded_def table_with_def less_Suc_eq split: if_splits)
  qed
next
  case (front jobs)
  show ?thesis
  proof (rule TryToLaunch_bounded [OF front(3)])
    show "bounded (s\<lparr>preresolve_jobs := table_with (preresolve_jobs s) jobs,
            queued_jobs := rev [next_id (preresolve_jobs s) ..<
                                next_id (preresolve_jobs s) + length jobs] @ queued_jobs s\<rparr>)"
      using assms(2) by (auto simp: bounded_def table_with_def split: if_splits)
  qed
next
  case (stop u p i)
  with assms(2) show ?thesis
    by (auto simp: bounded_def split: if_splits)
next
  case (callback j b job s1 s2 s3)
  from assms(2) have "bounded (notify (OnPreresolveFinished (job_url job) b) s)"
    by (simp add: bounded_def notify_def emit_def)
  from FinishPreresolve_bounded [OF callback(3) this]
  have "bounded (s1\<lparr>inflight_preresolves_count := inflight_preresolves_count s1 - 1\<rparr>)"
    by (simp add: bounded_def)
  from finish_if_done_bounded [OF callback(5) if_info_bounded [OF callback(4) this]]
  show ?thesis
    by (rule TryToLaunch_bounded [OF callback(6)])
next
  case (env d ob n dn)
  with assms(2) show ?thesis
    by (simp add: bounded_def)
qed

lemma turn_bounded:
  assumes "turn c w x = Inr w'" and "bounded (mgr w)"
  shows "bounded (mgr w')"
  using assms(1)
proof (cases rule: turn_cases)
  case (1 m)
  from assms(2) have "bounded ((mgr w)\<lparr>calls := []\<rparr>)"
    by (simp add: bounded_def)
  from apply_op_bounded [OF 1(2) this] 1(3) show ?thesis
    by simp
qed

lemma run_bounded:
  "run c w xs = Inr w' \<Longrightarrow> bounded (mgr w) \<Longrightarrow> bounded (mgr w')"
proof (induction xs arbitrary: w)
  case Nil
  then show ?case by simp
next
  case (Cons x xs)
  then show ?case
    by (auto split: sum.splits dest: turn_bounded)
qed

lemma new_world_bounded: "bounded (mgr (new_world dlg testing ctx))"
  by (simp add: bounded_def new_world_def PreconnectManager_def)

section \<open>The entry points that do nothing\<close>

text \<open>
  C6: for every URL whose host already has a group in \<open>preresolve_info\<close>, a second
  call of \<open>Start\<close> with that URL returns the state it was given: no group is made, no
  job is added to the job table or the queue, and the counters are unchanged.
\<close>

theorem Start_twice_is_noop:
  "preresolve_info s (host u) = Some p \<Longrightarrow> Start c u requests now s = Inr s"
  by (simp add: Start_def)

theorem Start_twice_is_noop_witness:
  "preresolve_info first_start (host url_u) = Some 0 \<and>
   Start cfg1 url_u [req_r, req_r] 5 first_start = Inr first_start"
proof -
  have h: "preresolve_info first_start (host url_u) = Some 0"
    by (simp add: first_start_def eval_defs)
  from Start_twice_is_noop [OF h] h show ?thesis
    by simp
qed

text \<open>
  C10: for every URL whose scheme is neither HTTP nor HTTPS, \<open>StartPreresolveHost\<close> and
  \<open>StartPreconnectUrl\<close> return the state they were given: no job is made and nothing
  is queued.
\<close>

theorem non_http_is_noop:
  "\<not> SchemeIsHTTPOrHTTPS u \<Longrightarrow>
     StartPreresolveHost c u s = Inr s \<and> StartPreconnectUrl c u cred s = Inr s"
  by (simp add: StartPreresolveHost_def StartPreconnectUrl_def)

theorem non_http_is_noop_witness:
  "\<not> SchemeIsHTTPOrHTTPS url_ftp \<and>
   StartPreresolveHost cfg1 url_ftp first_start = Inr first_start \<and>
   StartPreconnectUrl cfg1 url_ftp True first_start = Inr first_start"
proof -
  have h: "\<not> SchemeIsHTTPOrHTTPS url_ftp"
    by (simp add: SchemeIsHTTPOrHTTPS_def url_ftp_def)
  from non_http_is_noop [OF h] h show ?thesis
    by simp
qed

section \<open>The load attributes of a preconnect\<close>

text \<open>
  C9: a preconnect that reaches the network context with \<open>allow_credentials = false\<close>
  passes the three flags that suppress sending cookies, saving cookies and sending
  auth data, with privacy mode on; with \<open>allow_credentials = true\<close> it passes
  \<open>LOAD_NORMAL\<close> with privacy mode off.
\<close>

theorem PreconnectUrl_load_attributes:
  assumes ctx: "GetNetworkContext s = Some ctx"
    and pre: "dcheck_is_on c \<Longrightarrow> GetOrigin u = u \<and> SchemeIsHTTPOrHTTPS u"
    and flags: "flags = LOAD_DO_NOT_SEND_COOKIES c OR LOAD_DO_NOT_SAVE_COOKIES c
                          OR LOAD_DO_NOT_SEND_AUTH_DATA c"
  shows "PreconnectUrl c u site n cred s =
           Inr (s\<lparr>calls := calls s @ (if observer s then [OnPreconnectUrl u n cred] else [])
                  @ [PreconnectSockets n u (if cred then LOAD_NORMAL c else flags) (\<not> cred)]\<rparr>) \<and>
         flags AND LOAD_DO_NOT_SEND_COOKIES c = LOAD_DO_NOT_SEND_COOKIES c \<and>
         flags AND LOAD_DO_NOT_SAVE_COOKIES c = LOAD_DO_NOT_SAVE_COOKIES c \<and>
         flags AND LOAD_DO_NOT_SEND_AUTH_DATA c = LOAD_DO_NOT_SEND_AUTH_DATA c"
proof -
  have d1: "DCHECK c (GetOrigin u = u) = Inr ()"
    using pre by (auto simp: DCHECK_def)
  have d2: "DCHECK c (SchemeIsHTTPOrHTTPS u) = Inr ()"
    using pre by (auto simp: DCHECK_def)
  have bits: "(a OR b OR d) AND a = a" "(a OR b OR d) AND b = b" "(a OR b OR d) AND d = d"
    for a b d :: "32 word"
    by (simp_all add: bit_eq_iff bit_and_iff bit_or_iff) blast+
  have "PreconnectUrl c u site n cred s =
           Inr (s\<lparr>calls := calls s @ (if observer s then [OnPreconnectUrl u n cred] else [])
                  @ [PreconnectSockets n u (if cred then LOAD_NORMAL c else flags) (\<not> cred)]\<rparr>)"
    by (simp add: PreconnectUrl_def d1 d2 ctx Let_def load_attributes_def flags)
       (simp add: notify_def emit_def)
  then show ?thesis
    by (simp add: flags bits)
qed

theorem PreconnectUrl_load_attributes_witness:
  "GetNetworkContext first_start = Some 7 \<and>
   PreconnectUrl cfg1 url_x GURL_empty 1 False first_start =
     Inr (first_start\<lparr>calls := calls first_start @ [PreconnectSockets 1 url_x 448 True]\<rparr>) \<and>
   PreconnectUrl cfg1 url_x GURL_empty 1 True first_start =
     Inr (first_start\<lparr>calls := calls first_start @ [PreconnectSockets 1 url_x 0 False]\<rparr>)"
proof -
  have h: "GetNetworkContext first_start = Some 7"
    by (simp add: first_start_def eval_defs)
  have o: "\<not> observer first_start"
    by (simp add: first_start_def eval_defs)
  have p: "dcheck_is_on cfg1 \<Longrightarrow> GetOrigin url_x = url_x \<and> SchemeIsHTTPOrHTTPS url_x"
    by (simp add: GetOrigin_def SchemeIsHTTPOrHTTPS_def url_x_def)
  have f: "(448 :: 32 word) = LOAD_DO_NOT_SEND_COOKIES cfg1 OR LOAD_DO_NOT_SAVE_COOKIES cfg1
                          OR LOAD_DO_NOT_SEND_AUTH_DATA cfg1"
    by (simp add: cfg1_def)
  from PreconnectUrl_load_attributes [OF h p f, of GURL_empty 1 False]
    PreconnectUrl_load_attributes [OF h p f, of GURL_empty 1 True] h o
  show ?thesis
    by (simp add: cfg1_def)
qed

section \<open>The cap on jobs in flight\<close>

lemma launch_job_count:
  assumes "launch_job c j s = Inr s'"
    and "inflight_preresolves_count s < kMaxInflightPreresolves c"
  shows "inflight_preresolves_count s' \<le> kMaxInflightPreresolves c \<and>
         unat (inflight_preresolves_count s') + n_issued (calls s) =
           unat (inflight_preresolves_count s) + n_issued (calls s')"
  using assms
  by (cases rule: launch_job_cases) (auto simp: word_inc)

lemma TryToLaunch_count:
  assumes "TryToLaunchPreresolveJobs c s = Inr s'"
    and "inflight_preresolves_count s \<le> kMaxInflightPreresolves c"
  shows "inflight_preresolves_count s' \<le> kMaxInflightPreresolves c \<and>
         unat (inflight_preresolves_count s') + n_issued (calls s) =
           unat (inflight_preresolves_count s) + n_issued (calls s')"
proof (rule TryToLaunch_invariant [OF assms(1),
    where P = "\<lambda>x. inflight_preresolves_count x \<le> kMaxInflightPreresolves c \<and>
         unat (inflight_preresolves_count x) + n_issued (calls s) =
           unat (inflight_preresolves_count s) + n_issued (calls x)"])
  show "inflight_preresolves_count s \<le> kMaxInflightPreresolves c \<and>
    unat (inflight_preresolves_count s) + n_issued (calls s) =
    unat (inflight_preresolves_count s) + n_issued (calls s)"
    using assms(2) by simp
next
  fix x j rest s1
  assume p: "inflight_preresolves_count x \<le> kMaxInflightPreresolves c \<and>
         unat (inflight_preresolves_count x) + n_issued (calls s) =
           unat (inflight_preresolves_count s) + n_issued (calls x)"
    and "queued_jobs x = j # rest"
    and lt: "inflight_preresolves_count x < kMaxInflightPreresolves c"
    and l: "launch_job c j (x\<lparr>queued_jobs := rest\<rparr>) = Inr s1"
  from launch_job_count [OF l] lt p
  show "inflight_preresolves_count s1 \<le> kMaxInflightPreresolves c \<and>
         unat (inflight_preresolves_count s1) + n_issued (calls s) =
           unat (inflight_preresolves_count s) + n_issued (calls s1)"
    by simp
qed

lemma if_info_count:
  "if_info ip f s = Inr s' \<Longrightarrow>
     inflight_preresolves_count s' = inflight_preresolves_count s \<and> calls s' = calls s"
  by (cases ip) (auto simp: if_info_Some_Inr)

lemma FinishPreresolve_count:
  "FinishPreresolve c j b cached s = Inr s' \<Longrightarrow>
     inflight_preresolves_count s' = inflight_preresolves_count s \<and>
     n_issued (calls s') = n_issued (calls s)"
  by (erule FinishPreresolve_cases) auto

lemma finish_if_done_count:
  "finish_if_done c ip s = Inr s' \<Longrightarrow>
     inflight_preresolves_count s' = inflight_preresolves_count s \<and>
     n_issued (calls s') = n_issued (calls s)"
  by (erule finish_if_done_cases) auto

lemma callback_count:
  assumes "OnPreresolveFinished_cb c j b s = Inr s'"
    and "inflight_preresolves_count s \<le> kMaxInflightPreresolves c"
    and "inflight_preresolves_count s \<noteq> 0"
  shows "inflight_preresolves_count s' \<le> kMaxInflightPreresolves c \<and>
         unat (inflight_preresolves_count s') + n_issued (calls s) =
           unat (inflight_preresolves_count s) - 1 + n_issued (calls s')"
  using assms(1)
proof (cases rule: OnPreresolveFinished_cb_cases)
  case (1 job s1 s2 s3)
  from FinishPreresolve_count [OF 1(2)] have s1:
    "inflight_preresolves_count s1 = inflight_preresolves_count s"
    "n_issued (calls s1) = n_issued (calls s)"
    by (simp_all add: notify_def emit_def)
  from if_info_count [OF 1(3)] s1 have s2:
    "inflight_preresolves_count s2 = inflight_preresolves_count s - 1"
    "n_issued (calls s2) = n_issued (calls s)"
    by simp_all
  from finish_if_done_count [OF 1(4)] s2 have s3:
    "inflight_preresolves_count s3 = inflight_preresolves_count s - 1"
    "n_issued (calls s3) = n_issued (calls s)"
    by simp_all
  from word_dec [OF assms(3)] assms(2) have d:
    "unat (inflight_preresolves_count s3) = unat (inflight_preresolves_count s) - 1"
    "inflight_preresolves_count s3 \<le> kMaxInflightPreresolves c"
    by (simp_all add: s3)
  from TryToLaunch_count [OF 1(5) d(2)] d(1) s3(2) show ?thesis
    by simp
qed

lemma apply_op_count:
  assumes "apply_op c x s = Inr s'"
    and "inflight_preresolves_count s \<le> kMaxInflightPreresolves c"
    and "is_callback x \<Longrightarrow> inflight_preresolves_count s \<noteq> 0"
  shows "inflight_preresolves_count s' \<le> kMaxInflightPreresolves c \<and>
         unat (inflight_preresolves_count s') + n_issued (calls s) =
           unat (inflight_preresolves_count s) - (if is_callback x then 1 else 0)
             + n_issued (calls s')"
proof (cases x)
  case (OpStart u rs now)
  show ?thesis
  proof (cases "preresolve_info s (host u)")
    case (Some p)
    with assms(1,2) OpStart show ?thesis
      by (simp add: Start_def is_callback_def)
  next
    case None
    with assms(1) OpStart obtain s1 where
      a: "add_requests c (next_ptr s) rs
             (s\<lparr>preresolve_info := (preresolve_info s)(host u \<mapsto> next_ptr s),
                heap := (heap s)(next_ptr s \<mapsto> new_PreresolveInfo u (length rs) now),
                next_ptr := next_ptr s + 1\<rparr>) = Inr s1"
      and l: "TryToLaunchPreresolveJobs c s1 = Inr s'"
      by (auto simp: Start_def and_then_Inr_iff)
    from add_requests_Inr [OF a] have
      "inflight_preresolves_count s1 = inflight_preresolves_count s" "calls s1 = calls s"
      by simp_all
    with TryToLaunch_count [OF l] assms(2) OpStart show ?thesis
      by (simp add: is_callback_def)
  qed
next
  case (OpStartPreresolveHost u)
  show ?thesis
  proof (cases "SchemeIsHTTPOrHTTPS u")
    case False
    with assms(1,2) OpStartPreresolveHost show ?thesis
      by (simp add: StartPreresolveHost_def is_callback_def)
  next
    case True
    with assms(1) OpStartPreresolveHost obtain job where
      l: "TryToLaunchPreresolveJobs c (push_front_job job s) = Inr s'"
      by (auto simp: StartPreresolveHost_def and_then_Inr_iff)
    have "inflight_preresolves_count (push_front_job job s) = inflight_preresolves_count s"
      "calls (push_front_job job s) = calls s"
      by (simp_all add: push_front_job_def IDMap_Add_def)
    with TryToLaunch_count [OF l] assms(2) OpStartPreresolveHost show ?thesis
      by (simp add: is_callback_def)
  qed
next
  case (OpStartPreresolveHosts hs)
  with assms(1) have
    l: "TryToLaunchPreresolveJobs c
         (s\<lparr>preresolve_jobs := table_with (preresolve_jobs s) (map host_job (rev hs)),
            queued_jobs := rev [next_id (preresolve_jobs s) ..<
                                next_id (preresolve_jobs s) + length (rev hs)] @ queued_jobs s\<rparr>)
        = Inr s'"
    by (simp add: StartPreresolveHosts_def push_hosts_Inr)
  from TryToLaunch_count [OF l] assms(2) OpStartPreresolveHosts show ?thesis
    by (simp add: is_callback_def)
next
  case (OpStartPreconnectUrl u cred)
  show ?thesis
  proof (cases "SchemeIsHTTPOrHTTPS u")
    case False
    with assms(1,2) OpStartPreconnectUrl show ?thesis
      by (simp add: StartPreconnectUrl_def is_callback_def)
  next
    case True
    with assms(1) OpStartPreconnectUrl obtain job where
      l: "TryToLaunchPreresolveJobs c (push_front_job job s) = Inr s'"
      by (auto simp: StartPreconnectUrl_def and_then_Inr_iff)
    have "inflight_preresolves_count (push_front_job job s) = inflight_preresolves_count s"
      "calls (push_front_job job s) = calls s"
      by (simp_all add: push_front_job_def IDMap_Add_def)
    with TryToLaunch_count [OF l] assms(2) OpStartPreconnectUrl show ?thesis
      by (simp add: is_callback_def)
  qed
next
  case (OpStop u)
  with assms(1,2) show ?thesis
    by (auto simp: Stop_def modify_info_Inr is_callback_def split: option.splits)
next
  case (OpCallback j b)
  with assms callback_count [of c j b s s'] show ?thesis
    by (simp add: is_callback_def)
next
  case OpDelegateDestroyed
  with assms(1,2) show ?thesis
    by (auto simp: is_callback_def)
next
  case (OpNetworkContext ctx)
  with assms(1,2) show ?thesis
    by (auto simp: is_callback_def)
next
  case (OpSetObserverForTesting b)
  with assms(1,2) show ?thesis
    by (auto simp: is_callback_def)
next
  case (OpSetNetworkContextForTesting ctx)
  with assms(1,2) show ?thesis
    by (auto simp: is_callback_def)
qed

lemma length_delivered:
  "enabled w x \<Longrightarrow>
     length (delivered x (pending w)) = length (pending w) - (if is_callback x then 1 else 0)"
  by (cases x) (auto simp: is_callback_def length_remove1)

lemma enabled_callback_pending:
  "enabled w x \<Longrightarrow> is_callback x \<Longrightarrow> pending w \<noteq> []"
  by (cases x) (auto simp: is_callback_def)

lemma turn_counted:
  assumes "turn c w x = Inr w'" and "counted c w"
  shows "counted c w'"
proof -
  from assms(1) have en: "enabled w x"
    by (auto simp: turn_def split: if_splits)
  with assms(1) obtain m where
    m: "apply_op c x ((mgr w)\<lparr>calls := []\<rparr>) = Inr m"
    and w': "w' = \<lparr>mgr = m, pending = delivered x (pending w) @ concat (map issued (calls m)),
                   history = history w @ [(x, calls m)]\<rparr>"
    by (auto simp: turn_def split: sum.splits)
  have nz: "inflight_preresolves_count ((mgr w)\<lparr>calls := []\<rparr>) \<noteq> 0" if "is_callback x"
    using enabled_callback_pending [OF en that] assms(2)
    by (auto simp: counted_def unat_0_iff [symmetric] simp del: unat_0_iff unat_eq_0)
  from apply_op_count [OF m _ nz] assms(2) have
    "inflight_preresolves_count m \<le> kMaxInflightPreresolves c"
    "unat (inflight_preresolves_count m) =
       length (pending w) - (if is_callback x then 1 else 0) + n_issued (calls m)"
    by (simp_all add: counted_def)
  with length_delivered [OF en] show ?thesis
    by (simp add: counted_def w' n_issued_def)
qed

lemma run_counted:
  "run c w xs = Inr w' \<Longrightarrow> counted c w \<Longrightarrow> counted c w'"
proof (induction xs arbitrary: w)
  case Nil
  then show ?case by simp
next
  case (Cons x xs)
  then show ?case
    by (auto split: sum.splits dest: turn_counted)
qed

lemma new_world_counted: "counted c (new_world dlg testing ctx)"
  by (simp add: counted_def new_world_def PreconnectManager_def)

text \<open>
  C1: after every sequence of entry-point calls and callbacks on a new manager, the
  global counter \<open>inflight_preresolves_count\<close> is at most \<open>kMaxInflightPreresolves\<close>
  (and it is the number of outstanding callbacks); \<open>TryToLaunchPreresolveJobs\<close> admits
  nothing unless the counter is strictly below the cap.
\<close>

theorem inflight_never_exceeds_cap:
  "(run c (new_world dlg testing ctx) xs = Inr w \<longrightarrow>
      inflight_preresolves_count (mgr w) \<le> kMaxInflightPreresolves c \<and>
      unat (inflight_preresolves_count (mgr w)) = length (pending w)) \<and>
   (\<not> inflight_preresolves_count s < kMaxInflightPreresolves c \<longrightarrow>
      TryToLaunchPreresolveJobs c s = Inr s)"
  using run_counted [OF _ new_world_counted, of c dlg testing ctx xs w]
  by (simp add: counted_def TryToLaunchPreresolveJobs.simps split: list.splits)

theorem inflight_never_exceeds_cap_witness:
  "run cfg3 (new_world True False (Some 7)) [OpStart url_u [req_r, req_r, req_r, req_r] 0]
     = Inr full_world \<and>
   inflight_preresolves_count (mgr full_world) = 3 \<and>
   inflight_preresolves_count (mgr full_world) \<le> kMaxInflightPreresolves cfg3 \<and>
   map fst (pending full_world) = [1, 2, 3] \<and>
   queued_jobs (mgr full_world) = [4] \<and>
   TryToLaunchPreresolveJobs cfg3 (mgr full_world) = Inr (mgr full_world)"
proof -
  have r: "run cfg3 (new_world True False (Some 7))
      [OpStart url_u [req_r, req_r, req_r, req_r] 0] = Inr full_world"
    by (simp add: full_world_def world_of_def eval_defs)
  have e: "inflight_preresolves_count (mgr full_world) = 3"
    "map fst (pending full_world) = [1, 2, 3]" "queued_jobs (mgr full_world) = [4]"
    by (simp_all add: full_world_def world_of_def eval_defs)
  have k: "kMaxInflightPreresolves cfg3 = 3"
    by (simp add: cfg3_def cfg1_def)
  from inflight_never_exceeds_cap [of cfg3 True False "Some 7" _ full_world "mgr full_world"]
    r e k
  show ?thesis
    by simp
qed

section \<open>A resolve without a network context\<close>

text \<open>
  C8: when \<open>GetNetworkContext\<close> gives no context, \<open>PreresolveUrl\<close> does not run the
  callback and does not drop it: it returns no client and its only effect is the posted
  task that will run the callback with \<open>false\<close> (after the observer's notification), so
  the one callback outstanding for the job is the one that reports failure.
\<close>

theorem PreresolveUrl_without_network_context:
  assumes ctx: "GetNetworkContext s = None"
    and pre: "dcheck_is_on c \<Longrightarrow> GetOrigin u = u \<and> SchemeIsHTTPOrHTTPS u"
    and evs: "evs = (if observer s then [OnPreresolveUrl u] else []) @ [PostTask job_id False]"
  shows "PreresolveUrl c u job_id s = Inr (None, s\<lparr>calls := calls s @ evs\<rparr>) \<and>
         concat (map issued evs) = [(job_id, Some False)]"
proof -
  have d1: "DCHECK c (GetOrigin u = u) = Inr ()"
    using pre by (auto simp: DCHECK_def)
  have d2: "DCHECK c (SchemeIsHTTPOrHTTPS u) = Inr ()"
    using pre by (auto simp: DCHECK_def)
  show ?thesis
    by (simp add: PreresolveUrl_def d1 d2 ctx Let_def evs) (simp add: notify_def emit_def)
qed

theorem PreresolveUrl_without_network_context_witness:
  "GetNetworkContext no_network = None \<and>
   PreresolveUrl cfg1 url_x 1 no_network = Inr (None, no_network\<lparr>calls := [PostTask 1 False]\<rparr>) \<and>
   trace_of (run cfg1 (new_world True True None) [OpStartPreconnectUrl url_x True, OpCallback 1 False]) =
     [(OpStartPreconnectUrl url_x True, [PostTask 1 False]), (OpCallback 1 False, [])] \<and>
   run cfg1 (new_world True True None) [OpStartPreconnectUrl url_x True, OpCallback 1 True] = Inl NotPending"
proof -
  have h: "GetNetworkContext no_network = None"
    by (simp add: no_network_def eval_defs)
  have p: "dcheck_is_on cfg1 \<Longrightarrow> GetOrigin url_x = url_x \<and> SchemeIsHTTPOrHTTPS url_x"
    by (simp add: GetOrigin_def SchemeIsHTTPOrHTTPS_def url_x_def)
  have o: "\<not> observer no_network" "calls no_network = []"
    by (simp_all add: no_network_def eval_defs)
  have r1: "trace_of (run cfg1 (new_world True True None) [OpStartPreconnectUrl url_x True, OpCallback 1 False]) =
     [(OpStartPreconnectUrl url_x True, [PostTask 1 False]), (OpCallback 1 False, [])]"
    by (simp add: eval_defs)
  have r2: "run cfg1 (new_world True True None) [OpStartPreconnectUrl url_x True, OpCallback 1 True] = Inl NotPending"
    by (simp add: eval_defs)
  from PreresolveUrl_without_network_context [OF h p refl, where job_id = 1] h o r1 r2 show ?thesis
    by simp
qed

section \<open>After Stop\<close>

lemma jobs_of_group_Remove:
  "jobs_of_group G p t \<Longrightarrow> jobs_of_group G p (IDMap_Remove j t)"
  by (simp add: jobs_of_group_def IDMap_Remove_def)

lemma jobs_of_group_table_with:
  "jobs_of_group G p t \<Longrightarrow> jobs_of_group G p (table_with t jobs)"
  by (auto simp: jobs_of_group_def table_with_def)

lemma jobs_of_group_client:
  "jobs_of_group G p t \<Longrightarrow> data t j = Some job \<Longrightarrow>
     jobs_of_group G p (t\<lparr>data := (data t)(j \<mapsto> job\<lparr>resolve_host_client := cl\<rparr>)\<rparr>)"
  by (simp add: jobs_of_group_def)

lemma jobs_of_group_info:
  "jobs_of_group G p t \<Longrightarrow> G j \<Longrightarrow> data t j = Some job \<Longrightarrow> info job = Some p"
  by (simp add: jobs_of_group_def)

lemma canceled_at_update:
  "canceled_at p h n \<Longrightarrow> h q = Some i \<Longrightarrow> was_canceled i' = was_canceled i \<Longrightarrow>
     canceled_at p (h(q \<mapsto> i')) n"
  by (simp add: canceled_at_def)

lemma canceled_at_cancel:
  "canceled_at p h n \<Longrightarrow> was_canceled i' \<Longrightarrow> canceled_at p (h(q \<mapsto> i')) n"
  by (simp add: canceled_at_def)

lemma canceled_at_delete:
  "canceled_at p h n \<Longrightarrow> canceled_at p (h(q := None)) n"
  by (simp add: canceled_at_def)

lemma canceled_at_new:
  "canceled_at p h n \<Longrightarrow> canceled_at p (h(n \<mapsto> i)) (Suc n)"
  by (simp add: canceled_at_def)

lemma canceled_at_was_canceled:
  "canceled_at p h n \<Longrightarrow> h p = Some i \<Longrightarrow> was_canceled i"
  by (simp add: canceled_at_def)

lemma launch_job_silenced:
  assumes "launch_job c j s = Inr s'" and "silenced G p np s"
  shows "silenced G p np s'"
  using assms(1)
proof (cases rule: launch_job_cases)
  case (adhoc job)
  from assms(2) have g: "jobs_of_group G p (preresolve_jobs s)"
    by (simp add: silenced_def stopped_def)
  from jobs_of_group_info [OF g _ adhoc(1)] adhoc(2) have "\<not> G j"
    by auto
  with assms(2) adhoc(1) show ?thesis
    unfolding adhoc(3) by (simp add: silenced_def stopped_def jobs_of_group_client)
next
  case (grouped job q i)
  from assms(2) have g: "jobs_of_group G p (preresolve_jobs s)"
    and h: "canceled_at p (heap s) (next_ptr s)"
    by (simp_all add: silenced_def stopped_def)
  from jobs_of_group_info [OF g _ grouped(1)] grouped(2-4) canceled_at_was_canceled [OF h]
  have "\<not> G j"
    by auto
  with assms(2) grouped(1,3) show ?thesis
    unfolding grouped(5)
    by (simp add: silenced_def stopped_def jobs_of_group_client canceled_at_update)
next
  case (dropped job q i)
  with assms(2) show ?thesis
    by (simp add: silenced_def stopped_def jobs_of_group_Remove canceled_at_update)
qed

lemma TryToLaunch_silenced:
  assumes "TryToLaunchPreresolveJobs c s = Inr s'" and "silenced G p np s"
  shows "silenced G p np s'"
proof (rule TryToLaunch_invariant [OF assms(1), where P = "silenced G p np"])
  show "silenced G p np s" by fact
next
  fix x j rest s1
  assume "silenced G p np x" and "launch_job c j (x\<lparr>queued_jobs := rest\<rparr>) = Inr s1"
  then show "silenced G p np s1"
    by (auto dest!: launch_job_silenced [where G = G and p = p and np = np]
          simp: silenced_def stopped_def)
qed

lemma FinishPreresolve_silenced:
  assumes "FinishPreresolve c j b cached s = Inr s'" and "silenced G p np s"
    and "np \<Longrightarrow> G j"
  shows "silenced G p np s'"
  using assms(1)
proof (cases rule: FinishPreresolve_cases)
  case (failed job)
  with assms(2) show ?thesis
    by (simp add: silenced_def stopped_def jobs_of_group_Remove)
next
  case (adhoc job)
  from assms(2) have g: "jobs_of_group G p (preresolve_jobs s)"
    by (simp add: silenced_def stopped_def)
  from jobs_of_group_info [OF g _ adhoc(1)] adhoc(3) have "\<not> G j"
    by auto
  with assms(3) have "\<not> np" by auto
  with assms(2) show ?thesis
    unfolding adhoc(4)
    by (simp add: silenced_def stopped_def jobs_of_group_Remove silent_preconnect_calls)
next
  case (grouped job q i)
  from assms(2) have g: "jobs_of_group G p (preresolve_jobs s)"
    and h: "canceled_at p (heap s) (next_ptr s)"
    by (simp_all add: silenced_def stopped_def)
  have "was_canceled i" if "np"
  proof -
    from that assms(3) have "G j" by simp
    from jobs_of_group_info [OF g this grouped(1)] grouped(3) have "q = p"
      by simp
    with canceled_at_was_canceled [OF h] grouped(4) show ?thesis
      by simp
  qed
  then have "np \<longrightarrow> was_canceled i"
    by simp
  then have "silent G np (if need_preconnect job \<and> \<not> was_canceled i
                 then preconnect_calls c s (job_url job) (num_sockets job)
                        (allow_credentials job)
                 else [])"
    by (cases np) (auto simp: silent_preconnect_calls)
  with assms(2) grouped(4) show ?thesis
    unfolding grouped(5)
    by (auto simp: silenced_def stopped_def jobs_of_group_Remove canceled_at_update
          add_stats_def split: if_splits)
qed

lemma if_info_silenced:
  assumes "if_info ip f s = Inr s'" and "silenced G p np s"
    and "\<And>i. was_canceled (f i) = was_canceled i"
  shows "silenced G p np s'"
proof (cases ip)
  case None
  with assms(1,2) show ?thesis by simp
next
  case (Some q)
  with assms(1) obtain i where "heap s q = Some i" "s' = s\<lparr>heap := (heap s)(q \<mapsto> f i)\<rparr>"
    by (auto simp: if_info_Some_Inr)
  with assms(2,3) show ?thesis
    by (simp add: silenced_def stopped_def canceled_at_update)
qed

lemma finish_if_done_silenced:
  assumes "finish_if_done c ip s = Inr s'" and "silenced G p np s"
  shows "silenced G p np s'"
  using assms(1)
proof (cases rule: finish_if_done_cases)
  case no_info
  with assms(2) show ?thesis by simp
next
  case (unfinished q i)
  with assms(2) show ?thesis by simp
next
  case (finalised q i r)
  have "silent G np (if delegate s then [PreconnectFinished (stats i)] else [])"
    by (simp add: silent_def)
  with assms(2) show ?thesis
    unfolding finalised(6) by (simp add: silenced_def stopped_def canceled_at_delete)
qed

lemma apply_op_silenced:
  assumes "apply_op c x s = Inr s'" and "silenced G p np s"
    and np: "np \<Longrightarrow> \<exists>j b. x = OpCallback j b \<and> G j"
  shows "silenced G p np s'"
  using assms(1)
proof (cases rule: apply_op_cases)
  case unchanged
  with assms(2) show ?thesis by simp
next
  case (start u rs now)
  show ?thesis
  proof (rule TryToLaunch_silenced [OF start(3)])
    show "silenced G p np (s\<lparr>preresolve_info := (preresolve_info s)(host u \<mapsto> next_ptr s),
            heap := (heap s)(next_ptr s \<mapsto> new_PreresolveInfo u (length rs) now),
            next_ptr := next_ptr s + 1,
            preresolve_jobs := table_with (preresolve_jobs s) (map (request_job (next_ptr s)) rs),
            queued_jobs := queued_jobs s @
              [next_id (preresolve_jobs s) ..< next_id (preresolve_jobs s) + length rs]\<rparr>)"
      using assms(2)
      by (simp add: silenced_def stopped_def jobs_of_group_table_with canceled_at_new)
  qed
next
  case (front jobs)
  show ?thesis
  proof (rule TryToLaunch_silenced [OF front(3)])
    show "silenced G p np (s\<lparr>preresolve_jobs := table_with (preresolve_jobs s) jobs,
            queued_jobs := rev [next_id (preresolve_jobs s) ..<
                                next_id (preresolve_jobs s) + length jobs] @ queued_jobs s\<rparr>)"
      using assms(2) by (simp add: silenced_def stopped_def jobs_of_group_table_with)
  qed
next
  case (stop u q i)
  with assms(2) show ?thesis
    by (simp add: silenced_def stopped_def canceled_at_cancel)
next
  case (callback j b job s1 s2 s3)
  from np callback(1) have g: "np \<Longrightarrow> G j"
    by auto
  from assms(2) have "silenced G p np (notify (OnPreresolveFinished (job_url job) b) s)"
    by (simp add: silenced_def stopped_def notify_def emit_def silent_def)
  from FinishPreresolve_silenced [OF callback(3) this g]
  have "silenced G p np (s1\<lparr>inflight_preresolves_count := inflight_preresolves_count s1 - 1\<rparr>)"
    by (simp add: silenced_def stopped_def)
  from if_info_silenced [OF callback(4) this] have "silenced G p np s2"
    by simp
  from finish_if_done_silenced [OF callback(5) this]
  show ?thesis
    by (rule TryToLaunch_silenced [OF callback(6)])
next
  case (env d ob n dn)
  with assms(2) show ?thesis
    by (simp add: silenced_def stopped_def)
qed

lemma turn_silenced:
  assumes "turn c w x = Inr w'" and "stopped G p (mgr w)"
  shows "stopped G p (mgr w') \<and>
         (\<exists>evs. history w' = history w @ [(x, evs)] \<and> after_stop G (x, evs))"
  using assms(1)
proof (cases rule: turn_cases)
  case (1 m)
  let ?np = "case x of OpCallback j b \<Rightarrow> G j | _ \<Rightarrow> False"
  from assms(2) have "silenced G p ?np ((mgr w)\<lparr>calls := []\<rparr>)"
    by (simp add: silenced_def stopped_def)
  moreover have "?np \<Longrightarrow> \<exists>j b. x = OpCallback j b \<and> G j"
    by (cases x) auto
  ultimately have "silenced G p ?np m"
    by (rule apply_op_silenced [OF 1(2)])
  with 1(3) show ?thesis
    by (simp add: silenced_def after_stop_def)
qed

lemma run_silenced:
  "run c w xs = Inr w' \<Longrightarrow> stopped G p (mgr w) \<Longrightarrow>
     stopped G p (mgr w') \<and>
     (\<exists>hs. history w' = history w @ hs \<and> (\<forall>h \<in> set hs. after_stop G h))"
proof (induction xs arbitrary: w)
  case Nil
  then show ?case by simp
next
  case (Cons x xs)
  from Cons.prems(1) obtain w1 where t: "turn c w x = Inr w1" and r: "run c w1 xs = Inr w'"
    by (auto split: sum.splits)
  from turn_silenced [OF t Cons.prems(2)] obtain evs where
    w1: "stopped G p (mgr w1)" "history w1 = history w @ [(x, evs)]" "after_stop G (x, evs)"
    by blast
  from Cons.IH [OF r w1(1)] obtain hs where
    "stopped G p (mgr w')" "history w' = history w1 @ hs" "\<forall>h \<in> set hs. after_stop G h"
    by blast
  with w1 show ?case
    by auto
qed

text \<open>
  C3: after \<open>Stop(url)\<close> on a host with an active group, in every later turn of every
  run no resolve is issued for a job of that group (a job still queued is dropped), and
  the turn that runs the callback of such a job makes no preconnect call (neither to the
  network context nor to the observer), whatever the result of the resolve.
\<close>

theorem Stop_suppresses_preconnect:
  assumes before: "run c (new_world dlg testing ctx) xs = Inr w1"
    and active: "preresolve_info (mgr w1) (host u) = Some p"
    and stop: "turn c w1 (OpStop u) = Inr w2"
    and later: "run c w2 ys = Inr w3"
    and job: "group_job (mgr w1) p j"
    and h: "(x, evs) \<in> set (drop (length (history w1)) (history w3))"
  shows "(\<forall>e \<in> set evs. \<not> admits e j) \<and>
         ((\<exists>b. x = OpCallback j b) \<longrightarrow> (\<forall>e \<in> set evs. \<not> is_preconnect e))"
proof -
  let ?G = "group_job (mgr w1) p"
  from run_bounded [OF before new_world_bounded] have b: "bounded (mgr w1)" .
  from stop obtain m where m: "apply_op c (OpStop u) ((mgr w1)\<lparr>calls := []\<rparr>) = Inr m"
    and w2: "mgr w2 = m" "history w2 = history w1 @ [(OpStop u, calls m)]"
    by (cases rule: turn_cases) auto
  from m active obtain i where i: "heap (mgr w1) p = Some i"
    and m': "m = (mgr w1)\<lparr>calls := [], heap := (heap (mgr w1))(p \<mapsto> i\<lparr>was_canceled := True\<rparr>)\<rparr>"
    by (auto simp: Stop_def modify_info_Inr)
  from b i have "stopped ?G p (mgr w2)"
    by (auto simp: stopped_def jobs_of_group_def canceled_at_def bounded_def group_job_def
          w2 m' split: option.splits)
  from run_silenced [OF later this] obtain hs where
    hs: "history w3 = history w2 @ hs" "\<forall>h \<in> set hs. after_stop ?G h"
    by blast
  from h hs w2 m' have "(x, evs) = (OpStop u, []) \<or> (x, evs) \<in> set hs"
    by auto
  then have "after_stop ?G (x, evs)"
    using hs(2) by (auto simp: after_stop_def)
  with job show ?thesis
    by (auto simp: after_stop_def silent_def)
qed

theorem Stop_suppresses_preconnect_witness:
  "run cfg1 (new_world True False (Some 7)) [OpStart url_u [req_r] 0] = Inr stop_w1 \<and>
   preresolve_info (mgr stop_w1) (host url_u) = Some 0 \<and>
   turn cfg1 stop_w1 (OpStop url_u) = Inr stop_w2 \<and>
   run cfg1 stop_w2 [OpCallback 1 True] = Inr stop_w3 \<and>
   group_job (mgr stop_w1) 0 1 \<and>
   drop (length (history stop_w1)) (history stop_w3) =
     [(OpStop url_u, []),
      (OpCallback 1 True,
       [PreconnectFinished \<lparr>stats_url = url_u, start_time = 0,
          requests_stats = [\<lparr>stat_origin = req_origin req_r, was_preresolve_cached = False,
                             was_preconnected = False\<rparr>]\<rparr>])] \<and>
   list_all (\<lambda>e. \<not> admits e 1 \<and> \<not> is_preconnect e)
     [PreconnectFinished \<lparr>stats_url = url_u, start_time = 0,
          requests_stats = [\<lparr>stat_origin = req_origin req_r, was_preresolve_cached = False,
                             was_preconnected = False\<rparr>]\<rparr>]"
proof -
  have a: "run cfg1 (new_world True False (Some 7)) [OpStart url_u [req_r] 0] = Inr stop_w1"
    by (simp add: stop_w1_def world_of_def eval_defs)
  have b: "preresolve_info (mgr stop_w1) (host url_u) = Some 0"
    by (simp add: stop_w1_def world_of_def eval_defs)
  have d: "turn cfg1 stop_w1 (OpStop url_u) = Inr stop_w2"
    by (simp add: stop_w2_def stop_w1_def world_of_def eval_defs)
  have e: "run cfg1 stop_w2 [OpCallback 1 True] = Inr stop_w3"
    by (simp add: stop_w3_def stop_w2_def stop_w1_def world_of_def eval_defs)
  have f: "group_job (mgr stop_w1) 0 1"
    by (simp add: group_job_def stop_w1_def world_of_def eval_defs)
  have g: "drop (length (history stop_w1)) (history stop_w3) =
     [(OpStop url_u, []),
      (OpCallback 1 True,
       [PreconnectFinished \<lparr>stats_url = url_u, start_time = 0,
          requests_stats = [\<lparr>stat_origin = req_origin req_r, was_preresolve_cached = False,
                             was_preconnected = False\<rparr>]\<rparr>])]"
    by (simp add: stop_w3_def stop_w2_def stop_w1_def world_of_def eval_defs)
  have h: "(OpCallback 1 True,
       [PreconnectFinished \<lparr>stats_url = url_u, start_time = 0,
          requests_stats = [\<lparr>stat_origin = req_origin req_r, was_preresolve_cached = False,
                             was_preconnected = False\<rparr>]\<rparr>])
     \<in> set (drop (length (history stop_w1)) (history stop_w3))"
    by (simp add: g)
  from Stop_suppresses_preconnect [OF a b d e f h] a b d e f g show ?thesis
    by simp
qed

section \<open>The stats of a group\<close>




section \<open>The life of a job\<close>

lemma issued_ids_simps [simp]:
  "issued_ids [] = []"
  "issued_ids (xs @ ys) = issued_ids xs @ issued_ids ys"
  "issued_ids (resolve_calls s u j) = [j]"
  "issued_ids (preconnect_calls c s u n cred) = []"
  "issued_ids [PreconnectFinished st] = []"
  "issued_ids [OnPreresolveFinished u b] = []"
  by (simp_all add: issued_ids_def issued_resolve_calls preconnect_calls_def
        split: option.splits)

lemma n_sockets_simps [simp]:
  "n_sockets [] = 0"
  "n_sockets (xs @ ys) = n_sockets xs + n_sockets ys"
  "n_sockets (resolve_calls s u j) = 0"
  "n_sockets [PreconnectFinished st] = 0"
  "n_sockets [OnPreresolveFinished u b] = 0"
  by (simp_all add: n_sockets_def resolve_calls_def split: option.splits)

lemma n_sockets_preconnect_calls: "n_sockets (preconnect_calls c s u n cred) \<le> 1"
  by (simp add: n_sockets_def preconnect_calls_def split: option.splits)

lemma tidy_admit:
  assumes "tidy P (j # rest) ids t" and "data t j = Some job"
  shows "tidy P rest (ids @ [j]) (t\<lparr>data := (data t)(j \<mapsto> job')\<rparr>)"
  using assms by (auto simp: tidy_def)

lemma tidy_drop:
  assumes "tidy P (j # rest) ids t"
  shows "tidy P rest ids (IDMap_Remove j t)"
  using assms by (auto simp: tidy_def IDMap_Remove_def)

lemma dom_table_with:
  "dom (data (table_with t jobs)) = dom (data t) \<union> {next_id t ..< next_id t + length jobs}"
  by (auto simp: table_with_def split: if_splits)

lemma tidy_push:
  assumes "tidy P q ids t" and "set new = {next_id t ..< next_id t + length jobs}"
    and "distinct new" and "set q' = set q \<union> set new" and "distinct q'"
  shows "tidy P q' ids (table_with t jobs)"
proof -
  from assms(1) have d: "distinct (q @ ids @ P)"
    and e: "dom (data t) = set q \<union> set ids \<union> set P"
    and b: "\<forall>j \<in> dom (data t). j < next_id t"
    by (simp_all add: tidy_def)
  have "j \<notin> dom (data t)" if "j \<in> set new" for j
  proof -
    from that assms(2) have "\<not> j < next_id t"
      by simp
    with b show ?thesis
      by blast
  qed
  then have fresh: "set new \<inter> dom (data t) = {}"
    by blast
  with e have f: "set new \<inter> set ids = {}" "set new \<inter> set P = {}"
    by blast+
  from d have g: "set q \<inter> set ids = {}" "set q \<inter> set P = {}" "distinct (ids @ P)"
    by auto
  from f g assms(4,5) have 1: "distinct (q' @ ids @ P)"
    by auto
  from e assms(2,4) have 2: "dom (data (table_with t jobs)) = set q' \<union> set ids \<union> set P"
    by (simp add: dom_table_with) blast
  have 3: "\<forall>j \<in> dom (data (table_with t jobs)). j < next_id (table_with t jobs)"
  proof
    fix j assume "j \<in> dom (data (table_with t jobs))"
    then consider "j \<in> dom (data t)" | "j < next_id t + length jobs"
      unfolding dom_table_with by auto
    then show "j < next_id (table_with t jobs)"
    proof cases
      case 1
      with b have "j < next_id t" by blast
      then show ?thesis by simp
    next
      case 2
      then show ?thesis by simp
    qed
  qed
  from 1 2 3 show ?thesis
    unfolding tidy_def by blast
qed

lemma tidy_push_back:
  assumes "tidy P q ids t"
  shows "tidy P (q @ [next_id t ..< next_id t + length jobs]) ids (table_with t jobs)"
proof (rule tidy_push [OF assms, where new = "[next_id t ..< next_id t + length jobs]"])
  from assms have "\<forall>j \<in> set q. j < next_id t"
    by (auto simp: tidy_def)
  moreover from assms have "distinct q"
    by (simp add: tidy_def)
  ultimately show "distinct (q @ [next_id t ..< next_id t + length jobs])"
    by fastforce
qed simp_all

lemma tidy_push_front:
  assumes "tidy P q ids t"
  shows "tidy P (rev [next_id t ..< next_id t + length jobs] @ q) ids (table_with t jobs)"
proof (rule tidy_push [OF assms, where new = "[next_id t ..< next_id t + length jobs]"])
  from assms have "\<forall>j \<in> set q. j < next_id t"
    by (auto simp: tidy_def)
  moreover from assms have "distinct q"
    by (simp add: tidy_def)
  ultimately show "distinct (rev [next_id t ..< next_id t + length jobs] @ q)"
    by fastforce
next
  show "set (rev [next_id t ..< next_id t + length jobs] @ q)
          = set q \<union> set [next_id t ..< next_id t + length jobs]"
    by auto
qed simp_all

lemma tidy_finish:
  assumes "distinct (q @ P)" and "dom (data t) = set q \<union> set P"
    and "\<forall>j \<in> dom (data t). j < next_id t" and "j \<in> set P"
  shows "tidy (remove1 j P) q [] (IDMap_Remove j t)"
proof -
  from assms(1,4) have "j \<notin> set q"
    by auto
  with assms show ?thesis
    by (auto simp: tidy_def IDMap_Remove_def)
qed

lemma within_admit:
  assumes "within B n (j # rest) ids t"
  shows "within B n rest (ids @ [j]) (t\<lparr>data := d\<rparr>)"
  using assms by (auto simp: within_def)

lemma within_drop:
  assumes "within B n (j # rest) ids t"
  shows "within B n rest ids (IDMap_Remove j t)"
  using assms by (auto simp: within_def IDMap_Remove_def)

lemma within_push_back:
  assumes "within B n q ids t"
  shows "within B n (q @ [next_id t ..< next_id t + length jobs]) ids (table_with t jobs)"
  using assms by (fastforce simp: within_def)

lemma within_push_front:
  assumes "within B n q ids t"
  shows "within B n (rev [next_id t ..< next_id t + length jobs] @ q) ids (table_with t jobs)"
  using assms by (fastforce simp: within_def)

lemma within_Remove:
  assumes "within B n q ids t"
  shows "within B n q ids (IDMap_Remove j t)"
  using assms by (auto simp: within_def IDMap_Remove_def)

lemma within_start: "within (set q) (next_id t) q [] t"
  by (simp add: within_def)

lemma orderly_update [simp]:
  "orderly P B n k (s\<lparr>heap := h\<rparr>) = orderly P B n k s"
  "orderly P B n k (s\<lparr>inflight_preresolves_count := i\<rparr>) = orderly P B n k s"
  "orderly P B n k (s\<lparr>preresolve_info := f\<rparr>) = orderly P B n k s"
  "orderly P B n k (s\<lparr>next_ptr := np\<rparr>) = orderly P B n k s"
  "orderly P B n k (s\<lparr>delegate := d\<rparr>) = orderly P B n k s"
  "orderly P B n k (s\<lparr>observer := ob\<rparr>) = orderly P B n k s"
  "orderly P B n k (s\<lparr>network_context := nc\<rparr>) = orderly P B n k s"
  "orderly P B n k (s\<lparr>default_network_context := dn\<rparr>) = orderly P B n k s"
  by (simp_all add: orderly_def)

lemma launch_job_orderly:
  assumes "orderly P B n k s" and "queued_jobs s = j # rest"
    and "launch_job c j (s\<lparr>queued_jobs := rest\<rparr>) = Inr s1"
  shows "orderly P B n k s1"
  using assms(3)
proof (cases rule: launch_job_cases)
  case (adhoc job)
  with assms(1,2) show ?thesis
    by (simp add: orderly_def tidy_admit within_admit)
next
  case (grouped job p i)
  with assms(1,2) show ?thesis
    by (simp add: orderly_def tidy_admit within_admit)
next
  case (dropped job p i)
  with assms(1,2) show ?thesis
    by (simp add: orderly_def tidy_drop within_drop)
qed

lemma TryToLaunch_orderly:
  assumes "TryToLaunchPreresolveJobs c s = Inr s'" and "orderly P B n k s"
  shows "orderly P B n k s'"
proof (rule TryToLaunch_invariant [OF assms(1), where P = "orderly P B n k"])
  show "orderly P B n k s" by fact
next
  fix x j rest s1
  assume "orderly P B n k x" and "queued_jobs x = j # rest"
    and "launch_job c j (x\<lparr>queued_jobs := rest\<rparr>) = Inr s1"
  then show "orderly P B n k s1"
    by (rule launch_job_orderly)
qed

lemma FinishPreresolve_orderly:
  assumes "FinishPreresolve c j b cached s = Inr s'"
    and "distinct (queued_jobs s @ P)"
    and "dom (data (preresolve_jobs s)) = set (queued_jobs s) \<union> set P"
    and "\<forall>j \<in> dom (data (preresolve_jobs s)). j < next_id (preresolve_jobs s)"
    and "j \<in> set P"
    and "issued_ids (calls s) = []" and "n_sockets (calls s) = 0"
  shows "orderly (remove1 j P) (set (queued_jobs s)) (next_id (preresolve_jobs s)) 1 s'"
proof -
  have t: "tidy (remove1 j P) (queued_jobs s) [] (IDMap_Remove j (preresolve_jobs s))"
    using assms(2-5) by (rule tidy_finish)
  have w: "within (set (queued_jobs s)) (next_id (preresolve_jobs s)) (queued_jobs s) []
             (IDMap_Remove j (preresolve_jobs s))"
    by (rule within_Remove) (rule within_start)
  from assms(1) show ?thesis
  proof (cases rule: FinishPreresolve_cases)
    case (failed job)
    with t w assms(6,7) show ?thesis
      by (simp add: orderly_def)
  next
    case (adhoc job)
    with t w assms(6,7) n_sockets_preconnect_calls [of c s "job_url job" "num_sockets job"
        "allow_credentials job"]
    show ?thesis
      by (simp add: orderly_def)
  next
    case (grouped job p i)
    with t w assms(6,7) n_sockets_preconnect_calls [of c s "job_url job" "num_sockets job"
        "allow_credentials job"]
    show ?thesis
      by (simp add: orderly_def)
  qed
qed

lemma if_info_orderly:
  "if_info ip f s = Inr s' \<Longrightarrow> orderly P B n k s \<Longrightarrow> orderly P B n k s'"
  by (cases ip) (auto simp: if_info_Some_Inr)

lemma finish_if_done_orderly:
  assumes "finish_if_done c ip s = Inr s'" and "orderly P B n k s"
  shows "orderly P B n k s'"
  using assms(1)
proof (cases rule: finish_if_done_cases)
  case no_info
  with assms(2) show ?thesis by simp
next
  case (unfinished p i)
  with assms(2) show ?thesis by simp
next
  case (finalised p i q)
  with assms(2) show ?thesis
    by (simp add: orderly_def)
qed

lemma apply_op_orderly:
  assumes "apply_op c x s = Inr s'" and "calls s = []"
    and d: "distinct (queued_jobs s @ P)"
    and e: "dom (data (preresolve_jobs s)) = set (queued_jobs s) \<union> set P"
    and b: "\<forall>j \<in> dom (data (preresolve_jobs s)). j < next_id (preresolve_jobs s)"
    and en: "\<And>j b. x = OpCallback j b \<Longrightarrow> j \<in> set P"
  shows "orderly (remaining x P) (set (queued_jobs s)) (next_id (preresolve_jobs s))
           (if is_callback x then 1 else 0) s'"
proof -
  let ?B = "set (queued_jobs s)" and ?n = "next_id (preresolve_jobs s)"
  have init: "orderly P ?B ?n 0 s"
    using assms(2) d e b by (simp add: orderly_def tidy_def within_start)
  from assms(1) show ?thesis
  proof (cases rule: apply_op_cases)
    case unchanged
    with init show ?thesis
      by (cases x) (simp_all add: remaining_def is_callback_def)
  next
    case (start u rs now)
    from init have "orderly P ?B ?n 0
         (s\<lparr>preresolve_info := (preresolve_info s)(host u \<mapsto> next_ptr s),
            heap := (heap s)(next_ptr s \<mapsto> new_PreresolveInfo u (length rs) now),
            next_ptr := next_ptr s + 1,
            preresolve_jobs := table_with (preresolve_jobs s) (map (request_job (next_ptr s)) rs),
            queued_jobs := queued_jobs s @
              [next_id (preresolve_jobs s) ..< next_id (preresolve_jobs s) + length rs]\<rparr>)"
      using tidy_push_back [of P "queued_jobs s" "[]" "preresolve_jobs s"
          "map (request_job (next_ptr s)) rs"]
        within_push_back [of ?B ?n "queued_jobs s" "[]" "preresolve_jobs s"
          "map (request_job (next_ptr s)) rs"]
      by (simp add: orderly_def assms(2))
    from TryToLaunch_orderly [OF start(3) this] start(1) show ?thesis
      by (simp add: remaining_def is_callback_def)
  next
    case (front jobs)
    from init have "orderly P ?B ?n 0
         (s\<lparr>preresolve_jobs := table_with (preresolve_jobs s) jobs,
            queued_jobs := rev [next_id (preresolve_jobs s) ..<
                                next_id (preresolve_jobs s) + length jobs] @ queued_jobs s\<rparr>)"
      using tidy_push_front [of P "queued_jobs s" "[]" "preresolve_jobs s" jobs]
        within_push_front [of ?B ?n "queued_jobs s" "[]" "preresolve_jobs s" jobs]
      by (simp add: orderly_def assms(2))
    from TryToLaunch_orderly [OF front(3) this] front(1) show ?thesis
      by (cases x) (simp_all add: remaining_def is_callback_def)
  next
    case (stop u p i)
    with init show ?thesis
      by (simp add: remaining_def is_callback_def)
  next
    case (callback j b' job s1 s2 s3)
    let ?s0 = "notify (OnPreresolveFinished (job_url job) b') s"
    from en callback(1) have j: "j \<in> set P"
      by simp
    have s0: "queued_jobs ?s0 = queued_jobs s" "preresolve_jobs ?s0 = preresolve_jobs s"
      "issued_ids (calls ?s0) = []" "n_sockets (calls ?s0) = 0"
      using assms(2) by (simp_all add: notify_def emit_def)
    from FinishPreresolve_orderly [OF callback(3), of P] d e b j s0
    have "orderly (remove1 j P) ?B ?n 1 s1"
      by simp
    then have "orderly (remove1 j P) ?B ?n 1
        (s1\<lparr>inflight_preresolves_count := inflight_preresolves_count s1 - 1\<rparr>)"
      by simp
    from finish_if_done_orderly [OF callback(5) if_info_orderly [OF callback(4) this]]
    have "orderly (remove1 j P) ?B ?n 1 s3" .
    from TryToLaunch_orderly [OF callback(6) this] callback(1) show ?thesis
      by (simp add: remaining_def is_callback_def)
  next
    case (env dl ob nc dn)
    with init show ?thesis
      by (cases x) (simp_all add: remaining_def is_callback_def)
  qed
qed

lemma admits_issued: "admits e j \<longleftrightarrow> j \<in> fst ` set (issued e)"
  by (cases e) auto

lemma filter_admits:
  "length (filter (\<lambda>e. admits e j) evs) = length (filter (\<lambda>k. k = j) (issued_ids evs))"
proof (induction evs)
  case Nil
  then show ?case by (simp add: issued_ids_def)
next
  case (Cons e evs)
  then show ?case
    by (cases e) (simp_all add: issued_ids_def)
qed

lemma count_distinct:
  "distinct xs \<Longrightarrow> length (filter (\<lambda>k. k = j) xs) = (if j \<in> set xs then 1 else 0)"
  by (induction xs) auto

lemma admissions_snoc:
  "distinct (issued_ids evs) \<Longrightarrow>
     admissions (H @ [(x, evs)]) j =
       admissions H j + (if j \<in> set (issued_ids evs) then 1 else 0)"
  by (simp add: admissions_def filter_admits count_distinct)

lemma callbacks_snoc:
  "callbacks (H @ [(x, evs)]) j = callbacks H j + (if callback_of j x then 1 else 0)"
  by (simp add: callbacks_def)

lemma remaining_member:
  assumes "distinct P"
  shows "j \<in> set (remaining x P) \<longleftrightarrow> j \<in> set P \<and> \<not> callback_of j x"
  using assms by (cases x) (auto simp: remaining_def)

lemma distinct_remaining: "distinct P \<Longrightarrow> distinct (remaining x P)"
  by (cases x) (simp_all add: remaining_def)

lemma set_remaining: "set (remaining x P) \<subseteq> set P"
  by (cases x) (auto simp: remaining_def dest: set_remove1_subset [THEN subsetD])

lemma map_fst_remove1:
  "distinct (map fst ps) \<Longrightarrow> (j, v) \<in> set ps \<Longrightarrow>
     map fst (remove1 (j, v) ps) = remove1 j (map fst ps)"
proof (induction ps)
  case Nil
  then show ?case by simp
next
  case (Cons p ps)
  then show ?case
    by (cases p) (auto simp: rev_image_eqI)
qed

lemma map_fst_delivered:
  assumes "distinct (map fst (pending w))" and "enabled w x"
  shows "map fst (delivered x (pending w)) = remaining x (map fst (pending w))"
  using assms by (cases x) (auto simp: remaining_def map_fst_remove1)

lemma enabled_callback_member:
  "enabled w (OpCallback j b) \<Longrightarrow> j \<in> set (map fst (pending w))"
  by (auto simp: rev_image_eqI)

lemma turn_accounted:
  assumes "turn c w x = Inr w'" and "accounted w"
  shows "accounted w'"
  using assms(1)
proof (cases rule: turn_cases)
  case (1 m)
  let ?Pa = "map fst (pending w)" and ?Qa = "queued_jobs (mgr w)"
  let ?ta = "preresolve_jobs (mgr w)" and ?H = "history w"
  let ?ids = "issued_ids (calls m)" and ?P = "remaining x (map fst (pending w))"
  let ?q = "queued_jobs m" and ?t = "preresolve_jobs m"
  note A = assms(2) [unfolded accounted_def]
  have d0: "distinct (?Qa @ ?Pa)"
    using A by (elim conjE)
  have e0: "dom (data ?ta) = set ?Qa \<union> set ?Pa"
    using A by (elim conjE)
  have b0: "\<forall>j \<in> dom (data ?ta). j < next_id ?ta"
    using A by (elim conjE)
  have eq0: "\<forall>j. admissions ?H j = callbacks ?H j + (if j \<in> set ?Pa then 1 else 0)"
    using A by (elim conjE)
  have c0: "\<forall>j. callbacks ?H j \<le> 1"
    using A by (elim conjE)
  have z0: "\<forall>j. j \<in> dom (data ?ta) \<or> next_id ?ta \<le> j \<longrightarrow> callbacks ?H j = 0"
    using A by (elim conjE)
  have v0: "\<forall>h \<in> set ?H. n_sockets (snd h) \<le> (if is_callback (fst h) then 1 else 0)"
    using A by (elim conjE)
  have enj: "j \<in> set ?Pa" if "x = OpCallback j b" for j b
    using 1(1) that enabled_callback_member [of w j b] by simp
  have cbP: "j \<in> set ?Pa" if "callback_of j x" for j
    using that enj by (cases x) auto
  have "orderly ?P (set ?Qa) (next_id ?ta) (if is_callback x then 1 else 0) m"
    using apply_op_orderly [OF 1(2), where P = ?Pa] d0 e0 b0 enj by simp
  note O = this [unfolded orderly_def tidy_def within_def]
  have t1: "distinct (?q @ ?ids @ ?P)"
    using O by (elim conjE)
  have t2: "dom (data ?t) = set ?q \<union> set ?ids \<union> set ?P"
    using O by (elim conjE)
  have t3: "\<forall>j \<in> dom (data ?t). j < next_id ?t"
    using O by (elim conjE)
  have w1: "next_id ?ta \<le> next_id ?t"
    using O by (elim conjE)
  have w2: "set ?q \<union> set ?ids \<subseteq> set ?Qa \<union> {next_id ?ta ..< next_id ?t}"
    using O by (elim conjE)
  have so: "n_sockets (calls m) \<le> (if is_callback x then 1 else 0)"
    using O by (elim conjE)
  from d0 have dP0: "distinct ?Pa"
    by simp
  have mw: "mgr w' = m" "history w' = ?H @ [(x, calls m)]"
    by (simp_all add: 1(3))
  have pw: "map fst (pending w') = ?P @ ?ids"
    using map_fst_delivered [OF dP0 1(1)] by (simp add: 1(3) issued_ids_def)
  have rm: "j \<in> set ?P \<longleftrightarrow> j \<in> set ?Pa \<and> \<not> callback_of j x" for j
    using dP0 by (rule remaining_member)
  from t1 have dids: "distinct ?ids" and disj: "set ?ids \<inter> set ?P = {}"
    by auto
  have a1: "distinct (?q @ ?P @ ?ids)"
    using t1 by auto
  have a2: "dom (data ?t) = set ?q \<union> set (?P @ ?ids)"
    using t2 by auto
  have a4: "admissions (?H @ [(x, calls m)]) j =
      callbacks (?H @ [(x, calls m)]) j + (if j \<in> set (?P @ ?ids) then 1 else 0)" for j
    using eq0 [rule_format, of j] cbP [of j] disj rm [of j]
    by (auto simp: admissions_snoc [OF dids] callbacks_snoc)
  have old: "callbacks ?H j = 0" if "j \<in> set ?Pa" for j
    using that z0 e0 by blast
  have a5: "callbacks (?H @ [(x, calls m)]) j \<le> 1" for j
    using c0 [rule_format, of j] cbP [of j] old [of j] by (simp add: callbacks_snoc)
  have a6: "callbacks (?H @ [(x, calls m)]) j = 0"
    if j: "j \<in> dom (data ?t) \<or> next_id ?t \<le> j" for j
  proof -
    have n: "\<not> callback_of j x"
    proof
      assume cb: "callback_of j x"
      then have p0: "j \<in> set ?Pa" by (rule cbP)
      with e0 b0 have lt: "j < next_id ?ta" by blast
      from p0 d0 have "j \<notin> set ?Qa" by auto
      with lt w2 have "j \<notin> set ?q \<union> set ?ids" by auto
      moreover from cb rm have "j \<notin> set ?P" by simp
      ultimately have "j \<notin> dom (data ?t)" using t2 by blast
      with j lt w1 show False by simp
    qed
    have "j \<in> dom (data ?ta) \<or> next_id ?ta \<le> j"
    proof (cases "j \<in> dom (data ?t)")
      case True
      with t2 consider "j \<in> set ?q \<union> set ?ids" | "j \<in> set ?P" by blast
      then show ?thesis
      proof cases
        case 1
        with w2 have "j \<in> set ?Qa \<or> next_id ?ta \<le> j" by auto
        with e0 show ?thesis by blast
      next
        case 2
        with rm e0 show ?thesis by blast
      qed
    next
      case False
      with j w1 show ?thesis by simp
    qed
    with z0 have "callbacks ?H j = 0" by blast
    with n show ?thesis by (simp add: callbacks_snoc)
  qed
  have a7: "\<forall>h \<in> set (?H @ [(x, calls m)]).
      n_sockets (snd h) \<le> (if is_callback (fst h) then 1 else 0)"
    using v0 so by simp
  show ?thesis
    unfolding accounted_def mw pw
    by (intro conjI allI impI a1 a2 t3 a4 a5 a6 a7)
qed

lemma run_accounted:
  "run c w xs = Inr w' \<Longrightarrow> accounted w \<Longrightarrow> accounted w'"
proof (induction xs arbitrary: w)
  case Nil
  then show ?case by simp
next
  case (Cons x xs)
  then show ?case
    by (auto split: sum.splits dest: turn_accounted)
qed

lemma new_world_accounted: "accounted (new_world dlg testing ctx)"
  by (simp add: accounted_def new_world_def PreconnectManager_def admissions_def callbacks_def)







lemma if_info_jobs: "if_info ip f s = Inr s' \<Longrightarrow> preresolve_jobs s' = preresolve_jobs s"
  by (cases ip) (auto simp: if_info_Some_Inr)

lemma finish_if_done_jobs:
  "finish_if_done c ip s = Inr s' \<Longrightarrow> preresolve_jobs s' = preresolve_jobs s"
  by (erule finish_if_done_cases) simp_all




lemma n_sockets_preconnect_calls_Suc [simp]:
  "n_sockets (preconnect_calls c s u n cred) \<le> Suc 0"
  using n_sockets_preconnect_calls [of c s u n cred] by simp




section \<open>No run fails\<close>

text \<open>
  The theorems about runs below and above speak of runs that return a state. This section
  shows that they all do: on a manager that was made by the constructor and then only
  used through its entry points and its callbacks, no \<open>DCHECK\<close> fails (when the requests
  given to \<open>Start\<close> are well formed), no job id is looked up in vain, no freed
  \<open>PreresolveInfo\<close> is read or written, and \<open>preresolve_info.erase\<close> is given a valid
  iterator. The counters of a group never wrap around: they are the numbers of its jobs
  in the queue and in flight.
\<close>

lemma members_simps [simp]:
  "members t p [] = 0"
  "members t p (xs @ ys) = members t p xs + members t p ys"
  "members t p (j # xs) = (if pointer_of t j = Some p then 1 else 0) + members t p xs"
  by (simp_all add: members_def)

lemma members_le: "members t p xs \<le> length xs"
  by (simp add: members_def)

lemma members_zero: "members t p xs = 0 \<longleftrightarrow> (\<forall>j \<in> set xs. pointer_of t j \<noteq> Some p)"
  by (induction xs) auto

lemma members_cong:
  "(\<And>j. j \<in> set xs \<Longrightarrow> pointer_of t' j = pointer_of t j) \<Longrightarrow> members t' p xs = members t p xs"
  by (induction xs) auto

lemma members_remove1:
  "distinct xs \<Longrightarrow> j \<in> set xs \<Longrightarrow>
     members t p xs = (if pointer_of t j = Some p then 1 else 0) + members t p (remove1 j xs)"
  by (induction xs) auto

lemma pointer_of_client [simp]:
  "data t j = Some job \<Longrightarrow>
     pointer_of (t\<lparr>data := (data t)(j \<mapsto> job\<lparr>resolve_host_client := cl\<rparr>)\<rparr>) = pointer_of t"
  by (auto simp: pointer_of_def fun_eq_iff)

lemma pointer_of_Remove:
  "pointer_of (IDMap_Remove j t) k = (if k = j then None else pointer_of t k)"
  by (simp add: pointer_of_def IDMap_Remove_def)

lemma pointer_of_table_with:
  "pointer_of (table_with t jobs) k =
     (if next_id t \<le> k \<and> k < next_id t + length jobs then info (jobs ! (k - next_id t))
      else pointer_of t k)"
  by (simp add: pointer_of_def table_with_def)

lemma members_Remove:
  "j \<notin> set xs \<Longrightarrow> members (IDMap_Remove j t) p xs = members t p xs"
  by (rule members_cong) (auto simp: pointer_of_Remove)

lemma members_table_with_old:
  "\<forall>j \<in> set xs. j < next_id t \<Longrightarrow> members (table_with t jobs) p xs = members t p xs"
  by (rule members_cong) (auto simp: pointer_of_table_with)

lemma members_table_with_new:
  "members (table_with t jobs) p [next_id t ..< next_id t + length jobs] =
     length (filter (\<lambda>job. info job = Some p) jobs)"
proof -
  have "filter (\<lambda>j. pointer_of (table_with t jobs) j = Some p) [next_id t ..< next_id t + length jobs]
      = filter (\<lambda>j. info (jobs ! (j - next_id t)) = Some p) [next_id t ..< next_id t + length jobs]"
    by (rule filter_cong) (auto simp: pointer_of_table_with)
  also have "length \<dots> = length (filter (\<lambda>k. info (jobs ! k) = Some p) [0 ..< length jobs])"
  proof -
    have "[next_id t ..< next_id t + length jobs] = map (\<lambda>k. k + next_id t) [0 ..< length jobs]"
      by (simp add: map_add_upt add.commute)
    then show ?thesis
      by (simp add: filter_map o_def)
  qed
  also have "\<dots> = length (filter (\<lambda>job. info job = Some p) (map (\<lambda>k. jobs ! k) [0 ..< length jobs]))"
    by (simp add: filter_map o_def)
  also have "map (\<lambda>k. jobs ! k) [0 ..< length jobs] = jobs"
    by (rule map_nth)
  finally show ?thesis
    by (simp add: members_def)
qed

lemma members_rev [simp]: "members t p (rev xs) = members t p xs"
  by (simp add: members_def flip: rev_filter)

lemma unat_inc:
  fixes x :: "64 word"
  assumes "unat x < 2 ^ 64 - 1"
  shows "unat (x + 1) = Suc (unat x)"
proof -
  have "unat (x + 1) = unat (of_nat (Suc (unat x)) :: 64 word)"
    by (simp add: add.commute)
  also have "\<dots> = Suc (unat x) mod 2 ^ 64"
    by (simp only: unat_of_nat) simp
  also have "\<dots> = Suc (unat x)"
    using assms by simp
  finally show ?thesis .
qed

lemma attachedD:
  assumes "attached q fl t m h"
  shows "h p = Some i \<Longrightarrow> m (host (info_url i)) = Some p"
    and "h p = Some i \<Longrightarrow> unat (queued_count i) = members t p q"
    and "h p = Some i \<Longrightarrow> unat (inflight_count i) = members t p fl"
    and "m k = Some p \<Longrightarrow> \<exists>i. h p = Some i \<and> host (info_url i) = k"
    and "pointer_of t j = Some p \<Longrightarrow> h p \<noteq> None"
  using assms unfolding attached_def by blast+

lemma attachedI:
  assumes "\<And>p i. h p = Some i \<Longrightarrow> m (host (info_url i)) = Some p"
    and "\<And>p i. h p = Some i \<Longrightarrow> unat (queued_count i) = members t p q"
    and "\<And>p i. h p = Some i \<Longrightarrow> unat (inflight_count i) = members t p fl"
    and "\<And>k p. m k = Some p \<Longrightarrow> \<exists>i. h p = Some i \<and> host (info_url i) = k"
    and "\<And>j p. pointer_of t j = Some p \<Longrightarrow> h p \<noteq> None"
  shows "attached q fl t m h"
  using assms unfolding attached_def by blast

text \<open>A job without a group is admitted.\<close>

lemma attached_admit_adhoc:
  assumes a: "attached (j # rest) (ids @ P) t m h"
    and j: "data t j = Some job" "info job = None"
  shows "attached rest ((ids @ [j]) @ P)
           (t\<lparr>data := (data t)(j \<mapsto> job\<lparr>resolve_host_client := cl\<rparr>)\<rparr>) m h"
proof -
  from j have n: "pointer_of t j = None"
    by (simp add: pointer_of_def)
  show ?thesis
  proof (rule attachedI)
    fix p i assume "h p = Some i"
    from attachedD(1-3) [OF a this] n
    show "m (host (info_url i)) = Some p"
      "unat (queued_count i) =
         members (t\<lparr>data := (data t)(j \<mapsto> job\<lparr>resolve_host_client := cl\<rparr>)\<rparr>) p rest"
      "unat (inflight_count i) =
         members (t\<lparr>data := (data t)(j \<mapsto> job\<lparr>resolve_host_client := cl\<rparr>)\<rparr>) p ((ids @ [j]) @ P)"
      by (simp_all add: members_def pointer_of_client [OF j(1)])
  next
    fix k p assume "m k = Some p"
    from attachedD(4) [OF a this] show "\<exists>i. h p = Some i \<and> host (info_url i) = k" .
  next
    fix k p
    assume "pointer_of (t\<lparr>data := (data t)(j \<mapsto> job\<lparr>resolve_host_client := cl\<rparr>)\<rparr>) k = Some p"
    then have "pointer_of t k = Some p"
      by (simp add: pointer_of_client [OF j(1)])
    from attachedD(5) [OF a this] show "h p \<noteq> None" .
  qed
qed

text \<open>A job of a group is admitted: one less queued, one more in flight.\<close>

lemma attached_admit_grouped:
  assumes a: "attached (j # rest) (ids @ P) t m h"
    and j: "data t j = Some job" "info job = Some p" "h p = Some i"
    and room: "length (ids @ P) < 2 ^ 64 - 1"
  shows "attached rest ((ids @ [j]) @ P)
           (t\<lparr>data := (data t)(j \<mapsto> job\<lparr>resolve_host_client := cl\<rparr>)\<rparr>) m
           (h(p \<mapsto> i\<lparr>inflight_count := inflight_count i + 1,
                      queued_count := queued_count i - 1\<rparr>))"
proof -
  let ?t = "t\<lparr>data := (data t)(j \<mapsto> job\<lparr>resolve_host_client := cl\<rparr>)\<rparr>"
  from j have n: "pointer_of t j = Some p"
    by (simp add: pointer_of_def)
  from attachedD(2) [OF a j(3)] n have q: "unat (queued_count i) = Suc (members t p rest)"
    by simp
  then have "queued_count i \<noteq> 0"
    by auto
  then have q': "unat (queued_count i - 1) = members t p rest"
    using q by (simp add: unat_minus_one)
  from attachedD(3) [OF a j(3)] have f: "unat (inflight_count i) = members t p (ids @ P)" .
  with members_le [of t p "ids @ P"] room have "unat (inflight_count i) < 2 ^ 64 - 1"
    by simp
  from unat_inc [OF this] f
  have f': "unat (inflight_count i + 1) = Suc (members t p (ids @ P))"
    by simp
  show ?thesis
  proof (rule attachedI)
    fix p' i'
    assume h: "(h(p \<mapsto> i\<lparr>inflight_count := inflight_count i + 1,
                          queued_count := queued_count i - 1\<rparr>)) p' = Some i'"
    show "m (host (info_url i')) = Some p'"
      using h attachedD(1) [OF a, of p'] j(3) by (auto split: if_splits)
    show "unat (queued_count i') = members ?t p' rest"
      using h attachedD(2) [OF a, of p'] q' n
      by (auto simp: members_def pointer_of_client [OF j(1)] split: if_splits)
    show "unat (inflight_count i') = members ?t p' ((ids @ [j]) @ P)"
      using h attachedD(3) [OF a, of p'] f' n
      by (auto simp: members_def pointer_of_client [OF j(1)] split: if_splits)
  next
    fix k p' assume "m k = Some p'"
    from attachedD(4) [OF a this] j(3)
    show "\<exists>i'. (h(p \<mapsto> i\<lparr>inflight_count := inflight_count i + 1,
                          queued_count := queued_count i - 1\<rparr>)) p' = Some i' \<and>
               host (info_url i') = k"
      by auto
  next
    fix k p'
    assume "pointer_of ?t k = Some p'"
    then have "pointer_of t k = Some p'"
      by (simp add: pointer_of_client [OF j(1)])
    from attachedD(5) [OF a this]
    show "(h(p \<mapsto> i\<lparr>inflight_count := inflight_count i + 1,
                    queued_count := queued_count i - 1\<rparr>)) p' \<noteq> None"
      by simp
  qed
qed

text \<open>A job of a cancelled group is dropped: one less queued.\<close>

lemma attached_drop:
  assumes a: "attached (j # rest) fl t m h"
    and j: "data t j = Some job" "info job = Some p" "h p = Some i"
    and d: "j \<notin> set rest" "j \<notin> set fl"
  shows "attached rest fl (IDMap_Remove j t) m (h(p \<mapsto> i\<lparr>queued_count := queued_count i - 1\<rparr>))"
proof -
  from j have n: "pointer_of t j = Some p"
    by (simp add: pointer_of_def)
  from attachedD(2) [OF a j(3)] n have q: "unat (queued_count i) = Suc (members t p rest)"
    by simp
  then have "queued_count i \<noteq> 0"
    by auto
  then have q': "unat (queued_count i - 1) = members t p rest"
    using q by (simp add: unat_minus_one)
  show ?thesis
  proof (rule attachedI)
    fix p' i'
    assume h: "(h(p \<mapsto> i\<lparr>queued_count := queued_count i - 1\<rparr>)) p' = Some i'"
    show "m (host (info_url i')) = Some p'"
      using h attachedD(1) [OF a, of p'] j(3) by (auto split: if_splits)
    show "unat (queued_count i') = members (IDMap_Remove j t) p' rest"
      using h attachedD(2) [OF a, of p'] q' n
      by (auto simp: members_Remove [OF d(1)] split: if_splits)
    show "unat (inflight_count i') = members (IDMap_Remove j t) p' fl"
      using h attachedD(3) [OF a, of p'] j(3)
      by (auto simp: members_Remove [OF d(2)] split: if_splits)
  next
    fix k p' assume "m k = Some p'"
    from attachedD(4) [OF a this] j(3)
    show "\<exists>i'. (h(p \<mapsto> i\<lparr>queued_count := queued_count i - 1\<rparr>)) p' = Some i' \<and>
               host (info_url i') = k"
      by auto
  next
    fix k p'
    assume "pointer_of (IDMap_Remove j t) k = Some p'"
    then have "pointer_of t k = Some p'"
      by (simp add: pointer_of_Remove split: if_splits)
    from attachedD(5) [OF a this]
    show "(h(p \<mapsto> i\<lparr>queued_count := queued_count i - 1\<rparr>)) p' \<noteq> None"
      by simp
  qed
qed

text \<open>A record of the heap is changed, but not its url or its counters.\<close>

lemma attached_touch:
  assumes a: "attached q fl t m h" and i: "h p = Some i"
    and e: "info_url i' = info_url i" "queued_count i' = queued_count i"
      "inflight_count i' = inflight_count i"
  shows "attached q fl t m (h(p \<mapsto> i'))"
proof (rule attachedI)
  fix p' i''
  assume h: "(h(p \<mapsto> i')) p' = Some i''"
  show "m (host (info_url i'')) = Some p'"
    using h attachedD(1) [OF a, of p'] i e by (auto split: if_splits)
  show "unat (queued_count i'') = members t p' q"
    using h attachedD(2) [OF a, of p'] i e by (auto split: if_splits)
  show "unat (inflight_count i'') = members t p' fl"
    using h attachedD(3) [OF a, of p'] i e by (auto split: if_splits)
next
  fix k p' assume "m k = Some p'"
  from attachedD(4) [OF a this] i e
  show "\<exists>i''. (h(p \<mapsto> i')) p' = Some i'' \<and> host (info_url i'') = k"
    by auto
next
  fix k p'
  assume "pointer_of t k = Some p'"
  from attachedD(5) [OF a this] show "(h(p \<mapsto> i')) p' \<noteq> None"
    by simp
qed

text \<open>A job in flight finishes: it leaves the table, and its group has one less in flight.\<close>

lemma attached_finish_adhoc:
  assumes a: "attached q fl t m h"
    and j: "pointer_of t j = None"
    and d: "j \<notin> set q" "distinct fl" "j \<in> set fl"
  shows "attached q (remove1 j fl) (IDMap_Remove j t) m h"
proof (rule attachedI)
  fix p i assume h: "h p = Some i"
  from attachedD(1) [OF a h] show "m (host (info_url i)) = Some p" .
  from attachedD(2) [OF a h] show "unat (queued_count i) = members (IDMap_Remove j t) p q"
    by (simp add: members_Remove [OF d(1)])
  have "j \<notin> set (remove1 j fl)"
    using d(2) by simp
  from attachedD(3) [OF a h] members_remove1 [OF d(2,3), of t p] j
  show "unat (inflight_count i) = members (IDMap_Remove j t) p (remove1 j fl)"
    by (simp add: members_Remove [OF \<open>j \<notin> set (remove1 j fl)\<close>])
next
  fix k p assume "m k = Some p"
  from attachedD(4) [OF a this] show "\<exists>i. h p = Some i \<and> host (info_url i) = k" .
next
  fix k p
  assume "pointer_of (IDMap_Remove j t) k = Some p"
  then have "pointer_of t k = Some p"
    by (simp add: pointer_of_Remove split: if_splits)
  from attachedD(5) [OF a this] show "h p \<noteq> None" .
qed

lemma attached_finish_grouped:
  assumes a: "attached q fl t m h"
    and j: "pointer_of t j = Some p" "h p = Some i"
    and d: "j \<notin> set q" "distinct fl" "j \<in> set fl"
    and e: "info_url i' = info_url i" "queued_count i' = queued_count i"
      "inflight_count i' = inflight_count i - 1"
  shows "attached q (remove1 j fl) (IDMap_Remove j t) m (h(p \<mapsto> i'))"
proof -
  have r: "j \<notin> set (remove1 j fl)"
    using d(2) by simp
  from attachedD(3) [OF a j(2)] members_remove1 [OF d(2,3), of t p] j(1)
  have f: "unat (inflight_count i) = Suc (members t p (remove1 j fl))"
    by simp
  then have "inflight_count i \<noteq> 0"
    by auto
  then have f': "unat (inflight_count i - 1) = members t p (remove1 j fl)"
    using f by (simp add: unat_minus_one)
  show ?thesis
  proof (rule attachedI)
    fix p' i''
    assume h: "(h(p \<mapsto> i')) p' = Some i''"
    show "m (host (info_url i'')) = Some p'"
      using h attachedD(1) [OF a, of p'] j(2) e by (auto split: if_splits)
    show "unat (queued_count i'') = members (IDMap_Remove j t) p' q"
      using h attachedD(2) [OF a, of p'] j(2) e
      by (auto simp: members_Remove [OF d(1)] split: if_splits)
    show "unat (inflight_count i'') = members (IDMap_Remove j t) p' (remove1 j fl)"
    proof (cases "p' = p")
      case True
      with h e f' show ?thesis
        by (simp add: members_Remove [OF r])
    next
      case False
      with h have "h p' = Some i''" by simp
      from attachedD(3) [OF a this] members_remove1 [OF d(2,3), of t p'] j(1) False
      show ?thesis
        by (simp add: members_Remove [OF r])
    qed
  next
    fix k p' assume "m k = Some p'"
    from attachedD(4) [OF a this] j(2) e
    show "\<exists>i''. (h(p \<mapsto> i')) p' = Some i'' \<and> host (info_url i'') = k"
      by auto
  next
    fix k p'
    assume "pointer_of (IDMap_Remove j t) k = Some p'"
    then have "pointer_of t k = Some p'"
      by (simp add: pointer_of_Remove split: if_splits)
    from attachedD(5) [OF a this] show "(h(p \<mapsto> i')) p' \<noteq> None"
      by simp
  qed
qed

text \<open>A group that is done is erased: no job points to it.\<close>

lemma attached_erase:
  assumes a: "attached q fl t m h"
    and i: "h p = Some i" "is_done i"
    and dm: "dom (data t) \<subseteq> set q \<union> set fl"
  shows "attached q fl t (m(host (info_url i) := None)) (h(p := None))"
proof (rule attachedI)
  fix p' i'
  assume h: "(h(p := None)) p' = Some i'"
  then have h': "h p' = Some i'" and ne: "p' \<noteq> p"
    by (auto split: if_splits)
  have "host (info_url i') \<noteq> host (info_url i)"
  proof
    assume "host (info_url i') = host (info_url i)"
    with attachedD(1) [OF a h'] attachedD(1) [OF a i(1)] ne show False
      by simp
  qed
  with attachedD(1) [OF a h']
  show "(m(host (info_url i) := None)) (host (info_url i')) = Some p'"
    by simp
  from attachedD(2) [OF a h'] show "unat (queued_count i') = members t p' q" .
  from attachedD(3) [OF a h'] show "unat (inflight_count i') = members t p' fl" .
next
  fix k p'
  assume "(m(host (info_url i) := None)) k = Some p'"
  then have k: "m k = Some p'" "k \<noteq> host (info_url i)"
    by (auto split: if_splits)
  from attachedD(4) [OF a k(1)] obtain i' where i': "h p' = Some i'" "host (info_url i') = k"
    by blast
  with k(2) i(1) have "p' \<noteq> p"
    by auto
  with i' show "\<exists>i'. (h(p := None)) p' = Some i' \<and> host (info_url i') = k"
    by simp
next
  fix k p'
  assume k: "pointer_of t k = Some p'"
  have "p' \<noteq> p"
  proof
    assume "p' = p"
    from k have "k \<in> dom (data t)"
      by (auto simp: pointer_of_def split: option.splits)
    with dm have "k \<in> set q \<or> k \<in> set fl"
      by blast
    moreover from attachedD(2,3) [OF a i(1)] i(2)
    have "members t p q = 0" "members t p fl = 0"
      by (simp_all add: is_done_def)
    ultimately show False
      using k \<open>p' = p\<close> by (auto simp: members_zero)
  qed
  with attachedD(5) [OF a k] show "(h(p := None)) p' \<noteq> None"
    by simp
qed

text \<open>Jobs without a group are put in the queue.\<close>

lemma attached_push_front:
  assumes a: "attached q fl t m h"
    and b: "\<forall>j \<in> set q \<union> set fl. j < next_id t"
    and n: "\<forall>job \<in> set jobs. info job = None"
  shows "attached (rev [next_id t ..< next_id t + length jobs] @ q) fl (table_with t jobs) m h"
proof -
  have z: "members (table_with t jobs) p [next_id t ..< next_id t + length jobs] = 0" for p
    using n by (simp add: members_table_with_new)
  have o: "members (table_with t jobs) p q = members t p q"
    "members (table_with t jobs) p fl = members t p fl" for p
    using b by (simp_all add: members_table_with_old)
  show ?thesis
  proof (rule attachedI)
    fix p i assume h: "h p = Some i"
    from attachedD(1) [OF a h] show "m (host (info_url i)) = Some p" .
    from attachedD(2) [OF a h]
    show "unat (queued_count i) =
        members (table_with t jobs) p (rev [next_id t ..< next_id t + length jobs] @ q)"
      by (simp add: z o del: upt_Suc)
    from attachedD(3) [OF a h] show "unat (inflight_count i) = members (table_with t jobs) p fl"
      by (simp add: o)
  next
    fix k p assume "m k = Some p"
    from attachedD(4) [OF a this] show "\<exists>i. h p = Some i \<and> host (info_url i) = k" .
  next
    fix k p
    assume "pointer_of (table_with t jobs) k = Some p"
    with n have "pointer_of t k = Some p"
      by (auto simp: pointer_of_table_with split: if_splits)
    from attachedD(5) [OF a this] show "h p \<noteq> None" .
  qed
qed

text \<open>A new group, with its jobs at the back of the queue.\<close>

lemma attached_start:
  assumes a: "attached q fl t m h"
    and b: "\<forall>j \<in> set q \<union> set fl. j < next_id t"
    and fresh: "h p = None" "m (host u) = None"
    and len: "length rs < 2 ^ 64"
  shows "attached (q @ [next_id t ..< next_id t + length rs]) fl
           (table_with t (map (request_job p) rs))
           (m(host u \<mapsto> p)) (h(p \<mapsto> new_PreresolveInfo u (length rs) now))"
proof -
  let ?t = "table_with t (map (request_job p) rs)"
  let ?new = "[next_id t ..< next_id t + length rs]"
  have nw: "members ?t p' ?new = (if p' = p then length rs else 0)" for p'
    using members_table_with_new [of t "map (request_job p) rs" p']
    by (auto simp: request_job_def filter_map o_def)
  have o: "members ?t p' q = members t p' q" "members ?t p' fl = members t p' fl" for p'
    using b by (simp_all add: members_table_with_old)
  have none: "pointer_of t k \<noteq> Some p" for k
    using attachedD(5) [OF a, of k p] fresh(1) by auto
  have z: "members t p q = 0" "members t p fl = 0"
    using none by (simp_all add: members_zero)
  have u: "unat (of_nat (length rs) :: 64 word) = length rs"
    using len by (simp add: unat_of_nat)
  show ?thesis
  proof (rule attachedI)
    fix p' i
    assume h: "(h(p \<mapsto> new_PreresolveInfo u (length rs) now)) p' = Some i"
    show "(m(host u \<mapsto> p)) (host (info_url i)) = Some p'"
    proof (cases "p' = p")
      case True
      with h show ?thesis
        by (auto simp: new_PreresolveInfo_def)
    next
      case False
      with h have h': "h p' = Some i" by simp
      from attachedD(1) [OF a h'] fresh(2) have "host (info_url i) \<noteq> host u"
        by auto
      with attachedD(1) [OF a h'] show ?thesis
        by simp
    qed
    show "unat (queued_count i) = members ?t p' (q @ ?new)"
    proof (cases "p' = p")
      case True
      with h u show ?thesis
        by (auto simp: new_PreresolveInfo_def nw o z simp del: upt_Suc)
    next
      case False
      with h have h': "h p' = Some i" by simp
      from attachedD(2) [OF a h'] False show ?thesis
        by (simp add: nw o del: upt_Suc)
    qed
    show "unat (inflight_count i) = members ?t p' fl"
    proof (cases "p' = p")
      case True
      with h show ?thesis
        by (auto simp: new_PreresolveInfo_def o z)
    next
      case False
      with h have h': "h p' = Some i" by simp
      from attachedD(3) [OF a h'] show ?thesis
        by (simp add: o)
    qed
  next
    fix k p'
    assume k: "(m(host u \<mapsto> p)) k = Some p'"
    show "\<exists>i. (h(p \<mapsto> new_PreresolveInfo u (length rs) now)) p' = Some i \<and> host (info_url i) = k"
    proof (cases "k = host u")
      case True
      with k show ?thesis
        by (auto simp: new_PreresolveInfo_def)
    next
      case False
      with k have "m k = Some p'" by simp
      from attachedD(4) [OF a this] fresh(1) show ?thesis
        by auto
    qed
  next
    fix k p'
    assume k: "pointer_of ?t k = Some p'"
    show "(h(p \<mapsto> new_PreresolveInfo u (length rs) now)) p' \<noteq> None"
    proof (cases "p' = p")
      case True
      then show ?thesis by simp
    next
      case False
      with k have "pointer_of t k = Some p'"
        by (auto simp: pointer_of_table_with request_job_def split: if_splits)
      from attachedD(5) [OF a this] show ?thesis
        by simp
    qed
  qed
qed

lemma launch_job_total:
  assumes job: "data (preresolve_jobs s) j = Some job"
    and live: "\<And>p. info job = Some p \<Longrightarrow> heap s p \<noteq> None"
    and url: "dcheck_is_on c \<Longrightarrow>
                GetOrigin (job_url job) = job_url job \<and> SchemeIsHTTPOrHTTPS (job_url job)"
  shows "\<exists>s1. launch_job c j s = Inr s1"
proof (cases "info job")
  case None
  with job show ?thesis
    by (simp add: launch_job_def IDMap_Lookup_def PreresolveUrl_total [OF url])
next
  case (Some p)
  with live obtain i where i: "heap s p = Some i"
    by auto
  show ?thesis
  proof (cases "was_canceled i")
    case True
    with job Some i show ?thesis
      by (simp add: launch_job_def IDMap_Lookup_def info_canceled_def deref_def if_info_def
            modify_info_def IDMap_Remove_def)
  next
    case False
    with job Some i show ?thesis
      by (simp add: launch_job_def IDMap_Lookup_def info_canceled_def deref_def if_info_def
            modify_info_def set_client_def PreresolveUrl_total [OF url])
  qed
qed

lemma TryToLaunch_total:
  assumes "I s"
    and step: "\<And>s j rest. I s \<Longrightarrow> queued_jobs s = j # rest \<Longrightarrow>
           inflight_preresolves_count s < kMaxInflightPreresolves c \<Longrightarrow>
           \<exists>s1. launch_job c j (s\<lparr>queued_jobs := rest\<rparr>) = Inr s1 \<and> I s1"
  shows "\<exists>s'. TryToLaunchPreresolveJobs c s = Inr s' \<and> I s'"
  using assms
proof (induction c s rule: TryToLaunchPreresolveJobs.induct)
  case (1 c s)
  show ?case
  proof (cases "queued_jobs s")
    case Nil
    with "1.prems"(1) show ?thesis
      by (simp add: TryToLaunchPreresolveJobs.simps)
  next
    case (Cons j rest)
    show ?thesis
    proof (cases "inflight_preresolves_count s < kMaxInflightPreresolves c")
      case False
      with Cons "1.prems"(1) show ?thesis
        by (simp add: TryToLaunchPreresolveJobs.simps)
    next
      case True
      from "1.prems"(2) [OF "1.prems"(1) Cons True] obtain s1 where
        l: "launch_job c j (s\<lparr>queued_jobs := rest\<rparr>) = Inr s1" and i: "I s1"
        by blast
      from "1.IH" [OF Cons True l i "1.prems"(2)] obtain s' where
        "TryToLaunchPreresolveJobs c s1 = Inr s'" "I s'"
        by blast
      with Cons True l show ?thesis
        by (subst TryToLaunchPreresolveJobs.simps) simp
    qed
  qed
qed

lemma checked_client:
  "checked c t \<Longrightarrow> data t j = Some job \<Longrightarrow>
     checked c (t\<lparr>data := (data t)(j \<mapsto> job\<lparr>resolve_host_client := cl\<rparr>)\<rparr>)"
  by (auto simp: checked_def)

lemma checked_Remove: "checked c t \<Longrightarrow> checked c (IDMap_Remove j t)"
  by (auto simp: checked_def IDMap_Remove_def split: if_splits)

lemma checked_table_with:
  assumes "checked c t"
    and "dcheck_is_on c \<Longrightarrow> \<forall>job \<in> set jobs.
           GetOrigin (job_url job) = job_url job \<and> SchemeIsHTTPOrHTTPS (job_url job)"
  shows "checked c (table_with t jobs)"
  using assms by (auto simp: checked_def table_with_def split: if_splits)

lemma checkedD:
  "checked c t \<Longrightarrow> data t j = Some job \<Longrightarrow> dcheck_is_on c \<Longrightarrow>
     GetOrigin (job_url job) = job_url job \<and> SchemeIsHTTPOrHTTPS (job_url job)"
  by (auto simp: checked_def)

lemma soundD:
  assumes "sound c P s"
  shows "tidy P (queued_jobs s) (issued_ids (calls s)) (preresolve_jobs s)"
    and "inflight_preresolves_count s \<le> kMaxInflightPreresolves c"
    and "unat (inflight_preresolves_count s) = length (issued_ids (calls s) @ P)"
    and "attached (queued_jobs s) (issued_ids (calls s) @ P) (preresolve_jobs s)
           (preresolve_info s) (heap s)"
    and "\<And>p. heap s p \<noteq> None \<Longrightarrow> p < next_ptr s"
    and "checked c (preresolve_jobs s)"
  using assms unfolding sound_def by blast+

lemma soundI:
  assumes "tidy P (queued_jobs s) (issued_ids (calls s)) (preresolve_jobs s)"
    and "inflight_preresolves_count s \<le> kMaxInflightPreresolves c"
    and "unat (inflight_preresolves_count s) = length (issued_ids (calls s) @ P)"
    and "attached (queued_jobs s) (issued_ids (calls s) @ P) (preresolve_jobs s)
           (preresolve_info s) (heap s)"
    and "\<And>p. heap s p \<noteq> None \<Longrightarrow> p < next_ptr s"
    and "checked c (preresolve_jobs s)"
  shows "sound c P s"
  using assms unfolding sound_def by blast

lemma launch_job_sound:
  assumes s: "sound c P s" and q: "queued_jobs s = j # rest"
    and lt: "inflight_preresolves_count s < kMaxInflightPreresolves c"
  shows "\<exists>s1. launch_job c j (s\<lparr>queued_jobs := rest\<rparr>) = Inr s1 \<and> sound c P s1"
proof -
  let ?ids = "issued_ids (calls s)" and ?t = "preresolve_jobs s"
  note td = soundD(1) [OF s, unfolded q]
  note at = soundD(4) [OF s, unfolded q]
  note len = soundD(3) [OF s]
  note ck = soundD(6) [OF s]
  from td have "j \<in> dom (data ?t)"
    by (simp add: tidy_def)
  then obtain job where job: "data ?t j = Some job"
    by blast
  have d: "j \<notin> set rest" "j \<notin> set (?ids @ P)"
    using td by (auto simp: tidy_def)
  have live: "heap s p \<noteq> None" if "info job = Some p" for p
    using attachedD(5) [OF at, of j p] job that by (simp add: pointer_of_def)
  have url: "dcheck_is_on c \<Longrightarrow>
      GetOrigin (job_url job) = job_url job \<and> SchemeIsHTTPOrHTTPS (job_url job)"
    using checkedD [OF ck job] .
  have room: "length (?ids @ P) < 2 ^ 64 - 1"
  proof -
    from lt have "unat (inflight_preresolves_count s) < unat (kMaxInflightPreresolves c)"
      by (simp add: word_less_nat_alt)
    moreover have "unat (kMaxInflightPreresolves c) < 2 ^ 64"
      using unsigned_less [of "kMaxInflightPreresolves c", where 'a = nat] by simp
    ultimately show ?thesis
      using len by simp
  qed
  from launch_job_total [of "s\<lparr>queued_jobs := rest\<rparr>" j job c] job live url
  obtain s1 where l: "launch_job c j (s\<lparr>queued_jobs := rest\<rparr>) = Inr s1"
    by auto
  from l have "sound c P s1"
  proof (cases rule: launch_job_cases)
    case (adhoc job')
    with job have [simp]: "job' = job" by simp
    show ?thesis
    proof (rule soundI)
      show "tidy P (queued_jobs s1) (issued_ids (calls s1)) (preresolve_jobs s1)"
        using tidy_admit [OF td job] by (simp add: adhoc(3))
      show "inflight_preresolves_count s1 \<le> kMaxInflightPreresolves c"
        using word_inc(2) [OF lt] by (simp add: adhoc(3))
      show "unat (inflight_preresolves_count s1) = length (issued_ids (calls s1) @ P)"
        using word_inc(1) [OF lt] len by (simp add: adhoc(3))
      show "attached (queued_jobs s1) (issued_ids (calls s1) @ P) (preresolve_jobs s1)
              (preresolve_info s1) (heap s1)"
        using attached_admit_adhoc [OF at job] adhoc(2) by (simp add: adhoc(3))
      show "\<And>p. heap s1 p \<noteq> None \<Longrightarrow> p < next_ptr s1"
        using soundD(5) [OF s] by (simp add: adhoc(3))
      show "checked c (preresolve_jobs s1)"
        using checked_client [OF ck job] by (simp add: adhoc(3))
    qed
  next
    case (grouped job' p i)
    with job have [simp]: "job' = job" by simp
    from grouped have i: "info job = Some p" "heap s p = Some i"
      by simp_all
    show ?thesis
    proof (rule soundI)
      show "tidy P (queued_jobs s1) (issued_ids (calls s1)) (preresolve_jobs s1)"
        using tidy_admit [OF td job] by (simp add: grouped(5))
      show "inflight_preresolves_count s1 \<le> kMaxInflightPreresolves c"
        using word_inc(2) [OF lt] by (simp add: grouped(5))
      show "unat (inflight_preresolves_count s1) = length (issued_ids (calls s1) @ P)"
        using word_inc(1) [OF lt] len by (simp add: grouped(5))
      show "attached (queued_jobs s1) (issued_ids (calls s1) @ P) (preresolve_jobs s1)
              (preresolve_info s1) (heap s1)"
        using attached_admit_grouped [OF at job i room] by (simp add: grouped(5))
      show "\<And>p. heap s1 p \<noteq> None \<Longrightarrow> p < next_ptr s1"
        using soundD(5) [OF s] i(2) by (auto simp: grouped(5) split: if_splits)
      show "checked c (preresolve_jobs s1)"
        using checked_client [OF ck job] by (simp add: grouped(5))
    qed
  next
    case (dropped job' p i)
    with job have [simp]: "job' = job" by simp
    from dropped have i: "info job = Some p" "heap s p = Some i"
      by simp_all
    show ?thesis
    proof (rule soundI)
      show "tidy P (queued_jobs s1) (issued_ids (calls s1)) (preresolve_jobs s1)"
        using tidy_drop [OF td] by (simp add: dropped(5))
      show "inflight_preresolves_count s1 \<le> kMaxInflightPreresolves c"
        using soundD(2) [OF s] by (simp add: dropped(5))
      show "unat (inflight_preresolves_count s1) = length (issued_ids (calls s1) @ P)"
        using len by (simp add: dropped(5))
      show "attached (queued_jobs s1) (issued_ids (calls s1) @ P) (preresolve_jobs s1)
              (preresolve_info s1) (heap s1)"
        using attached_drop [OF at job i d] by (simp add: dropped(5))
      show "\<And>p. heap s1 p \<noteq> None \<Longrightarrow> p < next_ptr s1"
        using soundD(5) [OF s] i(2) by (auto simp: dropped(5) split: if_splits)
      show "checked c (preresolve_jobs s1)"
        using checked_Remove [OF ck] by (simp add: dropped(5))
    qed
  qed
  with l show ?thesis
    by blast
qed

lemma TryToLaunch_sound:
  assumes "sound c P s"
  shows "\<exists>s'. TryToLaunchPreresolveJobs c s = Inr s' \<and> sound c P s'"
  using assms by (rule TryToLaunch_total) (rule launch_job_sound)

lemma issued_ids_notify [simp]:
  "issued_ids (calls (notify (OnPreresolveFinished u b) s)) = issued_ids (calls s)"
  by (simp add: notify_def emit_def)

lemma notify_fields:
  "preresolve_jobs (notify e s) = preresolve_jobs s"
  "queued_jobs (notify e s) = queued_jobs s"
  "preresolve_info (notify e s) = preresolve_info s"
  "next_ptr (notify e s) = next_ptr s"
  "inflight_preresolves_count (notify e s) = inflight_preresolves_count s"
  by (simp_all add: notify_def emit_def)

text \<open>
  \<open>FinishPreresolve\<close> and the two decrements that follow it in \<open>OnPreresolveFinished\<close>,
  field by field.
\<close>

lemma finish_and_decrement:
  assumes job: "data (preresolve_jobs s) j = Some job"
    and live: "\<And>p. info job = Some p \<Longrightarrow> heap s p \<noteq> None"
    and url: "dcheck_is_on c \<Longrightarrow>
                GetOrigin (job_url job) = job_url job \<and> SchemeIsHTTPOrHTTPS (job_url job)"
  shows "\<exists>s1 s2.
     FinishPreresolve c j b False (notify (OnPreresolveFinished (job_url job) b) s) = Inr s1 \<and>
     if_info (info job) (\<lambda>i. i\<lparr>inflight_count := inflight_count i - 1\<rparr>)
       (s1\<lparr>inflight_preresolves_count := inflight_preresolves_count s1 - 1\<rparr>) = Inr s2 \<and>
     preresolve_jobs s2 = IDMap_Remove j (preresolve_jobs s) \<and>
     queued_jobs s2 = queued_jobs s \<and> preresolve_info s2 = preresolve_info s \<and>
     next_ptr s2 = next_ptr s \<and>
     inflight_preresolves_count s2 = inflight_preresolves_count s - 1 \<and>
     issued_ids (calls s2) = issued_ids (calls s) \<and>
     (case info job of
        None \<Rightarrow> heap s2 = heap s
      | Some p \<Rightarrow>
          (\<exists>i. heap s p = Some i \<and> heap s2 = (heap s)(p \<mapsto> the (heap s2 p)) \<and>
                info_url (the (heap s2 p)) = info_url i \<and>
                queued_count (the (heap s2 p)) = queued_count i \<and>
                inflight_count (the (heap s2 p)) = inflight_count i - 1))"
proof -
  let ?s0 = "notify (OnPreresolveFinished (job_url job) b) s"
  have job0: "IDMap_Lookup (preresolve_jobs s) j = Some job"
    using job by (simp add: IDMap_Lookup_def)
  note f0 = notify_fields
  note pc = PreconnectUrl_total [OF url]
  show ?thesis
  proof (cases "info job")
    case None
    show ?thesis
    proof (cases "b \<and> need_preconnect job")
      case True
      then show ?thesis
        by (simp add: FinishPreresolve_def f0 job0 None compute_need_preconnect_def
              site_for_cookies_of_def pc)
    next
      case False
      then show ?thesis
        by (simp add: FinishPreresolve_def f0 job0 None compute_need_preconnect_def)
    qed
  next
    case (Some p)
    with live obtain i where i: "heap s p = Some i"
      by auto
    then have i0: "heap ?s0 p = Some i"
      by simp
    show ?thesis
    proof (cases b)
      case False
      then show ?thesis
        using i i0
        by (simp add: FinishPreresolve_def f0 job0 Some compute_need_preconnect_def
              if_info_def modify_info_def)
    next
      case True
      show ?thesis
      proof (cases "need_preconnect job \<and> \<not> was_canceled i")
        case True
        with \<open>b\<close> i i0 show ?thesis
          by (simp add: FinishPreresolve_def f0 job0 Some compute_need_preconnect_def
                info_canceled_def deref_def site_for_cookies_of_def pc
                if_info_def modify_info_def add_stats_def)
      next
        case False
        with \<open>b\<close> i i0 show ?thesis
          by (auto simp: FinishPreresolve_def f0 job0 Some compute_need_preconnect_def
                info_canceled_def deref_def site_for_cookies_of_def
                if_info_def modify_info_def add_stats_def)
      qed
    qed
  qed
qed

lemma sound_fields:
  assumes "sound c P s"
    and "queued_jobs s' = queued_jobs s" "issued_ids (calls s') = issued_ids (calls s)"
    and "preresolve_jobs s' = preresolve_jobs s"
    and "inflight_preresolves_count s' = inflight_preresolves_count s"
    and "preresolve_info s' = preresolve_info s" "heap s' = heap s" "next_ptr s' = next_ptr s"
  shows "sound c P s'"
  using assms by (simp add: sound_def)

lemma finish_if_done_sound:
  assumes s: "sound c P s" and live: "\<And>p. ip = Some p \<Longrightarrow> heap s p \<noteq> None"
  shows "\<exists>s'. finish_if_done c ip s = Inr s' \<and> sound c P s'"
proof (cases ip)
  case None
  with s show ?thesis
    by (simp add: finish_if_done_def)
next
  case (Some p)
  with live obtain i where i: "heap s p = Some i"
    by auto
  note at = soundD(4) [OF s]
  from attachedD(1) [OF at i] have m: "preresolve_info s (host (info_url i)) = Some p" .
  show ?thesis
  proof (cases "is_done i")
    case False
    with s Some i show ?thesis
      by (simp add: finish_if_done_def deref_def)
  next
    case True
    let ?s' = "s\<lparr>calls := calls s @ (if delegate s then [PreconnectFinished (stats i)] else []),
                  preresolve_info := (preresolve_info s)(host (info_url i) := None),
                  heap := (heap s)(p := None)\<rparr>"
    have r: "finish_if_done c ip s = Inr ?s'"
      using Some i True m
      by (simp add: finish_if_done_def deref_def AllPreresolvesForUrlFinished_def DCHECK_def
            emit_def Let_def)
    have ids: "issued_ids (calls ?s') = issued_ids (calls s)"
      by simp
    have dm: "dom (data (preresolve_jobs s)) \<subseteq>
        set (queued_jobs s) \<union> set (issued_ids (calls s) @ P)"
      using soundD(1) [OF s] by (auto simp: tidy_def)
    have "sound c P ?s'"
    proof (rule soundI)
      show "tidy P (queued_jobs ?s') (issued_ids (calls ?s')) (preresolve_jobs ?s')"
        using soundD(1) [OF s] by (simp only: ids) simp
      show "inflight_preresolves_count ?s' \<le> kMaxInflightPreresolves c"
        using soundD(2) [OF s] by simp
      show "unat (inflight_preresolves_count ?s') = length (issued_ids (calls ?s') @ P)"
        using soundD(3) [OF s] by (simp only: ids) simp
      show "attached (queued_jobs ?s') (issued_ids (calls ?s') @ P) (preresolve_jobs ?s')
              (preresolve_info ?s') (heap ?s')"
        using attached_erase [OF at i True dm] by (simp only: ids) simp
      show "\<And>p'. heap ?s' p' \<noteq> None \<Longrightarrow> p' < next_ptr ?s'"
        using soundD(5) [OF s] by (auto split: if_splits)
      show "checked c (preresolve_jobs ?s')"
        using soundD(6) [OF s] by simp
    qed
    with r show ?thesis
      by blast
  qed
qed

lemma word_dec_unat:
  fixes x :: "64 word"
  assumes "unat x = Suc n"
  shows "unat (x - 1) = n"
proof -
  from assms have "x \<noteq> 0"
    by auto
  from unat_minus_one [OF this] assms show ?thesis
    by simp
qed

lemma callback_sound:
  assumes s: "sound c P s" and e: "issued_ids (calls s) = []" and j: "j \<in> set P"
  shows "\<exists>s'. OnPreresolveFinished_cb c j b s = Inr s' \<and> sound c (remove1 j P) s'"
proof -
  let ?t = "preresolve_jobs s" and ?q = "queued_jobs s"
  note td = soundD(1) [OF s, unfolded e]
  note at = soundD(4) [OF s, unfolded e, simplified]
  note len = soundD(3) [OF s, unfolded e, simplified]
  note ck = soundD(6) [OF s]
  from td j have "j \<in> dom (data ?t)"
    by (simp add: tidy_def)
  then obtain job where job: "data ?t j = Some job"
    by blast
  have d: "distinct (?q @ P)" "dom (data ?t) = set ?q \<union> set P"
    "\<forall>j \<in> dom (data ?t). j < next_id ?t"
    using td by (simp_all add: tidy_def)
  have jq: "j \<notin> set ?q" and dP: "distinct P"
    using d(1) j by auto
  have live: "heap s p \<noteq> None" if "info job = Some p" for p
    using attachedD(5) [OF at, of j p] job that by (simp add: pointer_of_def)
  have url: "dcheck_is_on c \<Longrightarrow>
      GetOrigin (job_url job) = job_url job \<and> SchemeIsHTTPOrHTTPS (job_url job)"
    using checkedD [OF ck job] .
  from finish_and_decrement [OF job live url, where b = b] obtain s1 s2 where
    f: "FinishPreresolve c j b False (notify (OnPreresolveFinished (job_url job) b) s) = Inr s1"
    and dec: "if_info (info job) (\<lambda>i. i\<lparr>inflight_count := inflight_count i - 1\<rparr>)
       (s1\<lparr>inflight_preresolves_count := inflight_preresolves_count s1 - 1\<rparr>) = Inr s2"
    and s2: "preresolve_jobs s2 = IDMap_Remove j ?t" "queued_jobs s2 = ?q"
      "preresolve_info s2 = preresolve_info s" "next_ptr s2 = next_ptr s"
      "inflight_preresolves_count s2 = inflight_preresolves_count s - 1"
      "issued_ids (calls s2) = []"
    and h2: "case info job of
        None \<Rightarrow> heap s2 = heap s
      | Some p \<Rightarrow>
          (\<exists>i. heap s p = Some i \<and> heap s2 = (heap s)(p \<mapsto> the (heap s2 p)) \<and>
                info_url (the (heap s2 p)) = info_url i \<and>
                queued_count (the (heap s2 p)) = queued_count i \<and>
                inflight_count (the (heap s2 p)) = inflight_count i - 1)"
    unfolding e by blast
  from j obtain n where n: "length P = Suc n"
    by (cases P) auto
  with j dP have n': "length (remove1 j P) = n"
    by (simp add: length_remove1)
  have snd2: "sound c (remove1 j P) s2"
  proof (rule soundI)
    show "tidy (remove1 j P) (queued_jobs s2) (issued_ids (calls s2)) (preresolve_jobs s2)"
      using tidy_finish [OF d j] by (simp add: s2)
    from len n have u: "unat (inflight_preresolves_count s) = Suc n"
      by simp
    from word_dec_unat [OF u]
    show "unat (inflight_preresolves_count s2) = length (issued_ids (calls s2) @ remove1 j P)"
      by (simp add: s2 n')
    from u have "inflight_preresolves_count s \<noteq> 0"
      by auto
    from word_dec(2) [OF this soundD(2) [OF s]]
    show "inflight_preresolves_count s2 \<le> kMaxInflightPreresolves c"
      by (simp add: s2)
    show "attached (queued_jobs s2) (issued_ids (calls s2) @ remove1 j P) (preresolve_jobs s2)
              (preresolve_info s2) (heap s2)"
    proof (cases "info job")
      case None
      with job have "pointer_of ?t j = None"
        by (simp add: pointer_of_def)
      from attached_finish_adhoc [OF at this jq dP j] h2 None show ?thesis
        by (simp add: s2)
    next
      case (Some p)
      with job have pj: "pointer_of ?t j = Some p"
        by (simp add: pointer_of_def)
      define i' where "i' = the (heap s2 p)"
      from h2 Some obtain i where i: "heap s p = Some i" "heap s2 = (heap s)(p \<mapsto> i')"
        "info_url i' = info_url i" "queued_count i' = queued_count i"
        "inflight_count i' = inflight_count i - 1"
        unfolding i'_def by auto
      from attached_finish_grouped [OF at pj i(1) jq dP j i(3-5)] show ?thesis
        by (simp add: s2 i(2))
    qed
    show "\<And>p. heap s2 p \<noteq> None \<Longrightarrow> p < next_ptr s2"
    proof -
      fix p assume p: "heap s2 p \<noteq> None"
      have "heap s p \<noteq> None"
      proof (cases "info job")
        case None
        with h2 p show ?thesis by simp
      next
        case (Some p')
        with h2 obtain i where i: "heap s p' = Some i"
          and eq: "heap s2 = (heap s)(p' \<mapsto> the (heap s2 p'))"
          by auto
        show ?thesis
        proof (cases "p = p'")
          case True
          with i show ?thesis by simp
        next
          case False
          from fun_cong [OF eq, of p] False have "heap s2 p = heap s p"
            by simp
          with p show ?thesis by simp
        qed
      qed
      from soundD(5) [OF s this] show "p < next_ptr s2"
        by (simp add: s2)
    qed
    show "checked c (preresolve_jobs s2)"
      using checked_Remove [OF ck] by (simp add: s2)
  qed
  have live2: "heap s2 p \<noteq> None" if "info job = Some p" for p
  proof -
    from h2 that have eq: "heap s2 = (heap s)(p \<mapsto> the (heap s2 p))"
      by auto
    from fun_cong [OF eq, of p] have "heap s2 p = Some (the (heap s2 p))"
      by simp
    then show ?thesis
      by (rule ssubst) simp
  qed
  from finish_if_done_sound [OF snd2 live2] obtain s3 where
    s3: "finish_if_done c (info job) s2 = Inr s3" "sound c (remove1 j P) s3"
    by blast
  from TryToLaunch_sound [OF s3(2)] obtain s' where
    s': "TryToLaunchPreresolveJobs c s3 = Inr s'" "sound c (remove1 j P) s'"
    by blast
  from job f dec s3(1) s'(1) have "OnPreresolveFinished_cb c j b s = Inr s'"
    by (simp add: OnPreresolveFinished_cb_def IDMap_Lookup_def)
  with s'(2) show ?thesis
    by blast
qed

lemma tidy_below:
  "tidy P q ids t \<Longrightarrow> \<forall>j \<in> set q \<union> set (ids @ P). j < next_id t"
  by (auto simp: tidy_def)

lemma add_requests_total:
  assumes "dcheck_is_on c \<Longrightarrow>
     \<forall>r \<in> set rs. GetOrigin (req_origin r) = req_origin r \<and> 0 \<le> req_num_sockets r"
  shows "\<exists>s'. add_requests c p rs s = Inr s'"
  using assms
proof (induction rs arbitrary: s)
  case Nil
  show ?case by simp
next
  case (Cons r rs)
  have d: "DCHECK c (GetOrigin (req_origin r) = req_origin r) = Inr ()"
    "DCHECK c (0 \<le> req_num_sockets r) = Inr ()"
    using Cons.prems by (auto simp: DCHECK_def)
  from Cons.prems have "dcheck_is_on c \<Longrightarrow>
     \<forall>r \<in> set rs. GetOrigin (req_origin r) = req_origin r \<and> 0 \<le> req_num_sockets r"
    by simp
  from Cons.IH [OF this] show ?case
    by (simp add: d new_PreresolveJob_def split: prod.splits)
qed

lemma Start_sound:
  assumes s: "sound c P s"
    and wf: "dcheck_is_on c \<Longrightarrow>
      \<forall>r \<in> set rs. GetOrigin (req_origin r) = req_origin r \<and>
                     SchemeIsHTTPOrHTTPS (req_origin r) \<and> 0 \<le> req_num_sockets r"
    and len: "length rs < 2 ^ 64"
  shows "\<exists>s'. Start c u rs now s = Inr s' \<and> sound c P s'"
proof (cases "preresolve_info s (host u)")
  case (Some p)
  with s show ?thesis
    by (simp add: Start_def)
next
  case None
  let ?p = "next_ptr s" and ?t = "preresolve_jobs s"
  let ?s0 = "s\<lparr>preresolve_info := (preresolve_info s)(host u \<mapsto> ?p),
               heap := (heap s)(?p \<mapsto> new_PreresolveInfo u (length rs) now),
               next_ptr := ?p + 1\<rparr>"
  let ?s1 = "?s0\<lparr>preresolve_jobs := table_with (preresolve_jobs ?s0) (map (request_job ?p) rs),
                  queued_jobs := queued_jobs ?s0 @
                    [next_id (preresolve_jobs ?s0) ..< next_id (preresolve_jobs ?s0) + length rs]\<rparr>"
  from wf have "dcheck_is_on c \<Longrightarrow>
     \<forall>r \<in> set rs. GetOrigin (req_origin r) = req_origin r \<and> 0 \<le> req_num_sockets r"
    by simp
  from add_requests_total [OF this] obtain s1 where a: "add_requests c ?p rs ?s0 = Inr s1"
    by blast
  from add_requests_Inr [OF a] have s1: "s1 = ?s1" .
  note td = soundD(1) [OF s]
  have fresh: "heap s ?p = None"
  proof (rule ccontr)
    assume "heap s ?p \<noteq> None"
    from soundD(5) [OF s this] show False
      by simp
  qed
  have "sound c P ?s1"
  proof (rule soundI)
    show "tidy P (queued_jobs ?s1) (issued_ids (calls ?s1)) (preresolve_jobs ?s1)"
      using tidy_push_back [OF td, of "map (request_job ?p) rs"] by simp
    show "inflight_preresolves_count ?s1 \<le> kMaxInflightPreresolves c"
      using soundD(2) [OF s] by simp
    show "unat (inflight_preresolves_count ?s1) = length (issued_ids (calls ?s1) @ P)"
      using soundD(3) [OF s] by simp
    show "attached (queued_jobs ?s1) (issued_ids (calls ?s1) @ P) (preresolve_jobs ?s1)
            (preresolve_info ?s1) (heap ?s1)"
      using attached_start [OF soundD(4) [OF s] tidy_below [OF td] fresh None len, of now]
      by simp
    show "\<And>p. heap ?s1 p \<noteq> None \<Longrightarrow> p < next_ptr ?s1"
      using soundD(5) [OF s] by (auto simp: less_Suc_eq split: if_splits)
    have "checked c (table_with ?t (map (request_job ?p) rs))"
    proof (rule checked_table_with [OF soundD(6) [OF s]])
      assume "dcheck_is_on c"
      from wf [OF this]
      show "\<forall>job \<in> set (map (request_job ?p) rs).
          GetOrigin (job_url job) = job_url job \<and> SchemeIsHTTPOrHTTPS (job_url job)"
        by (simp add: request_job_def)
    qed
    then show "checked c (preresolve_jobs ?s1)"
      by simp
  qed
  from TryToLaunch_sound [OF this] obtain s' where
    "TryToLaunchPreresolveJobs c ?s1 = Inr s'" "sound c P s'"
    by blast
  with a s1 None show ?thesis
    by (simp add: Start_def)
qed

lemma front_sound:
  assumes s: "sound c P s"
    and jobs: "\<forall>job \<in> set jobs. info job = None \<and> GetOrigin (job_url job) = job_url job \<and>
                 SchemeIsHTTPOrHTTPS (job_url job)"
  shows "\<exists>s'. TryToLaunchPreresolveJobs c
           (s\<lparr>preresolve_jobs := table_with (preresolve_jobs s) jobs,
              queued_jobs := rev [next_id (preresolve_jobs s) ..<
                                  next_id (preresolve_jobs s) + length jobs] @ queued_jobs s\<rparr>)
           = Inr s' \<and> sound c P s'"
proof -
  let ?s1 = "s\<lparr>preresolve_jobs := table_with (preresolve_jobs s) jobs,
              queued_jobs := rev [next_id (preresolve_jobs s) ..<
                                  next_id (preresolve_jobs s) + length jobs] @ queued_jobs s\<rparr>"
  note td = soundD(1) [OF s]
  have "sound c P ?s1"
  proof (rule soundI)
    show "tidy P (queued_jobs ?s1) (issued_ids (calls ?s1)) (preresolve_jobs ?s1)"
      using tidy_push_front [OF td, of jobs] by simp
    show "inflight_preresolves_count ?s1 \<le> kMaxInflightPreresolves c"
      using soundD(2) [OF s] by simp
    show "unat (inflight_preresolves_count ?s1) = length (issued_ids (calls ?s1) @ P)"
      using soundD(3) [OF s] by simp
    have "\<forall>job \<in> set jobs. info job = None"
      using jobs by blast
    from attached_push_front [OF soundD(4) [OF s] tidy_below [OF td] this]
    show "attached (queued_jobs ?s1) (issued_ids (calls ?s1) @ P) (preresolve_jobs ?s1)
            (preresolve_info ?s1) (heap ?s1)"
      by simp
    show "\<And>p. heap ?s1 p \<noteq> None \<Longrightarrow> p < next_ptr ?s1"
      using soundD(5) [OF s] by simp
    have "checked c (table_with (preresolve_jobs s) jobs)"
      using jobs by (intro checked_table_with [OF soundD(6) [OF s]]) blast
    then show "checked c (preresolve_jobs ?s1)"
      by simp
  qed
  then show ?thesis
    by (rule TryToLaunch_sound)
qed

lemma Stop_sound:
  assumes s: "sound c P s"
  shows "\<exists>s'. Stop u s = Inr s' \<and> sound c P s'"
proof (cases "preresolve_info s (host u)")
  case None
  with s show ?thesis
    by (simp add: Stop_def)
next
  case (Some p)
  note at = soundD(4) [OF s]
  from attachedD(4) [OF at Some] obtain i where i: "heap s p = Some i"
    by blast
  let ?s' = "s\<lparr>heap := (heap s)(p \<mapsto> i\<lparr>was_canceled := True\<rparr>)\<rparr>"
  have r: "Stop u s = Inr ?s'"
    using Some i by (simp add: Stop_def modify_info_def)
  have "sound c P ?s'"
  proof (rule soundI)
    show "tidy P (queued_jobs ?s') (issued_ids (calls ?s')) (preresolve_jobs ?s')"
      using soundD(1) [OF s] by simp
    show "inflight_preresolves_count ?s' \<le> kMaxInflightPreresolves c"
      using soundD(2) [OF s] by simp
    show "unat (inflight_preresolves_count ?s') = length (issued_ids (calls ?s') @ P)"
      using soundD(3) [OF s] by simp
    show "attached (queued_jobs ?s') (issued_ids (calls ?s') @ P) (preresolve_jobs ?s')
            (preresolve_info ?s') (heap ?s')"
      using attached_touch [OF at i, of "i\<lparr>was_canceled := True\<rparr>"] by simp
    show "\<And>q. heap ?s' q \<noteq> None \<Longrightarrow> q < next_ptr ?s'"
      using soundD(5) [OF s] i by (auto split: if_splits)
    show "checked c (preresolve_jobs ?s')"
      using soundD(6) [OF s] by simp
  qed
  with r show ?thesis
    by blast
qed

lemma new_job_total:
  "0 \<le> n \<Longrightarrow> new_PreresolveJob c u n cred ip =
     Inr \<lparr>job_url = u, num_sockets = n, allow_credentials = cred, info = ip,
          resolve_host_client = None\<rparr>"
  by (simp add: new_PreresolveJob_def DCHECK_def)

lemma apply_op_sound:
  assumes s: "sound c P s" and e: "issued_ids (calls s) = []"
    and en: "\<And>j b. x = OpCallback j b \<Longrightarrow> j \<in> set P"
      "\<And>u rs now. x = OpStart u rs now \<Longrightarrow> length rs < 2 ^ 64"
    and wf: "well_formed c x"
  shows "\<exists>s'. apply_op c x s = Inr s' \<and> sound c (remaining x P) s'"
proof (cases x)
  case (OpStart u rs now)
  from wf OpStart have "dcheck_is_on c \<Longrightarrow>
      \<forall>r \<in> set rs. GetOrigin (req_origin r) = req_origin r \<and>
                     SchemeIsHTTPOrHTTPS (req_origin r) \<and> 0 \<le> req_num_sockets r"
    by (simp add: well_formed_def list_all_iff)
  from Start_sound [OF s this en(2) [OF OpStart]] OpStart show ?thesis
    by (simp add: remaining_def)
next
  case (OpStartPreresolveHost u)
  show ?thesis
  proof (cases "SchemeIsHTTPOrHTTPS u")
    case False
    with s OpStartPreresolveHost show ?thesis
      by (simp add: StartPreresolveHost_def remaining_def)
  next
    case True
    let ?job = "\<lparr>job_url = GetOrigin u, num_sockets = 0,
      allow_credentials = kAllowCredentialsOnPreconnectByDefault, info = None,
      resolve_host_client = None\<rparr>"
    have "\<forall>job \<in> set [?job]. info job = None \<and> GetOrigin (job_url job) = job_url job \<and>
                 SchemeIsHTTPOrHTTPS (job_url job)"
      using True by simp
    from front_sound [OF s this] True OpStartPreresolveHost show ?thesis
      by (simp add: StartPreresolveHost_def new_job_total push_front_job_eq remaining_def)
  qed
next
  case (OpStartPreresolveHosts hs)
  have "\<forall>job \<in> set (map host_job (rev hs)).
      info job = None \<and> GetOrigin (job_url job) = job_url job \<and>
      SchemeIsHTTPOrHTTPS (job_url job)"
    by simp
  from front_sound [OF s this] OpStartPreresolveHosts show ?thesis
    by (simp add: StartPreresolveHosts_def push_hosts_Inr remaining_def)
next
  case (OpStartPreconnectUrl u cred)
  show ?thesis
  proof (cases "SchemeIsHTTPOrHTTPS u")
    case False
    with s OpStartPreconnectUrl show ?thesis
      by (simp add: StartPreconnectUrl_def remaining_def)
  next
    case True
    let ?job = "\<lparr>job_url = GetOrigin u, num_sockets = 1,
      allow_credentials = cred, info = None, resolve_host_client = None\<rparr>"
    have "\<forall>job \<in> set [?job]. info job = None \<and> GetOrigin (job_url job) = job_url job \<and>
                 SchemeIsHTTPOrHTTPS (job_url job)"
      using True by simp
    from front_sound [OF s this] True OpStartPreconnectUrl show ?thesis
      by (simp add: StartPreconnectUrl_def new_job_total push_front_job_eq remaining_def)
  qed
next
  case (OpStop u)
  from Stop_sound [OF s] OpStop show ?thesis
    by (simp add: remaining_def)
next
  case (OpCallback j b)
  from callback_sound [OF s e en(1) [OF OpCallback]] OpCallback show ?thesis
    by (simp add: remaining_def)
next
  case OpDelegateDestroyed
  from s have "sound c P (s\<lparr>delegate := False\<rparr>)"
    by (rule sound_fields) simp_all
  with OpDelegateDestroyed show ?thesis
    by (simp add: remaining_def)
next
  case (OpNetworkContext ctx)
  from s have "sound c P (s\<lparr>default_network_context := ctx\<rparr>)"
    by (rule sound_fields) simp_all
  with OpNetworkContext show ?thesis
    by (simp add: remaining_def)
next
  case (OpSetObserverForTesting b)
  from s have "sound c P (s\<lparr>observer := b\<rparr>)"
    by (rule sound_fields) simp_all
  with OpSetObserverForTesting show ?thesis
    by (simp add: remaining_def)
next
  case (OpSetNetworkContextForTesting ctx)
  from s have "sound c P (s\<lparr>network_context := ctx\<rparr>)"
    by (rule sound_fields) simp_all
  with OpSetNetworkContextForTesting show ?thesis
    by (simp add: remaining_def)
qed

lemma attached_moved:
  assumes "attached q fl t m h" and "\<And>p. members t p fl' = members t p fl"
  shows "attached q fl' t m h"
  using assms by (simp add: attached_def)

lemma sound_turn_end:
  assumes s: "sound c P s"
  shows "sound c (P @ issued_ids (calls s)) (s\<lparr>calls := []\<rparr>)"
proof (rule soundI)
  let ?s' = "s\<lparr>calls := []\<rparr>" and ?ids = "issued_ids (calls s)"
  show "tidy (P @ ?ids) (queued_jobs ?s') (issued_ids (calls ?s')) (preresolve_jobs ?s')"
    using soundD(1) [OF s] by (auto simp: tidy_def)
  show "inflight_preresolves_count ?s' \<le> kMaxInflightPreresolves c"
    using soundD(2) [OF s] by simp
  show "unat (inflight_preresolves_count ?s') = length (issued_ids (calls ?s') @ P @ ?ids)"
    using soundD(3) [OF s] by simp
  have "attached (queued_jobs s) (P @ ?ids) (preresolve_jobs s) (preresolve_info s) (heap s)"
    by (rule attached_moved [OF soundD(4) [OF s]]) simp
  then show "attached (queued_jobs ?s') (issued_ids (calls ?s') @ P @ ?ids) (preresolve_jobs ?s')
          (preresolve_info ?s') (heap ?s')"
    by simp
  show "\<And>p. heap ?s' p \<noteq> None \<Longrightarrow> p < next_ptr ?s'"
    using soundD(5) [OF s] by simp
  show "checked c (preresolve_jobs ?s')"
    using soundD(6) [OF s] by simp
qed

lemma turn_safe:
  assumes s: "safe c w" and en: "enabled w x" and wf: "well_formed c x"
  shows "\<exists>w'. turn c w x = Inr w' \<and> safe c w'"
proof -
  let ?P = "map fst (pending w)" and ?s = "(mgr w)\<lparr>calls := []\<rparr>"
  from s have snd: "sound c ?P ?s"
    by (simp add: safe_def)
  from soundD(1) [OF snd] have dP: "distinct ?P"
    by (simp add: tidy_def)
  have "\<exists>m. apply_op c x ?s = Inr m \<and> sound c (remaining x ?P) m"
  proof (rule apply_op_sound [OF snd])
    show "issued_ids (calls ?s) = []"
      by simp
    show "\<And>j b. x = OpCallback j b \<Longrightarrow> j \<in> set ?P"
      using en enabled_callback_member by blast
    show "\<And>u rs now. x = OpStart u rs now \<Longrightarrow> length rs < 2 ^ 64"
      using en by auto
    show "well_formed c x"
      by fact
  qed
  then obtain m where m: "apply_op c x ?s = Inr m" "sound c (remaining x ?P) m"
    by blast
  let ?w' = "\<lparr>mgr = m, pending = delivered x (pending w) @ concat (map issued (calls m)),
              history = history w @ [(x, calls m)]\<rparr>"
  have t: "turn c w x = Inr ?w'"
    using en m(1) by (simp add: turn_def)
  have "map fst (pending ?w') = remaining x ?P @ issued_ids (calls m)"
    using map_fst_delivered [OF dP en] by (simp add: issued_ids_def)
  with sound_turn_end [OF m(2)] have "safe c ?w'"
    by (simp add: safe_def)
  with t show ?thesis
    by blast
qed

lemma new_world_safe: "safe c (new_world dlg testing ctx)"
  by (simp add: safe_def sound_def new_world_def PreconnectManager_def tidy_def attached_def
        checked_def pointer_of_def)

lemma run_safe:
  assumes "safe c w" and "\<forall>x \<in> set xs. well_formed c x"
  shows "(\<exists>w'. run c w xs = Inr w' \<and> safe c w') \<or> run c w xs = Inl NotPending"
  using assms
proof (induction xs arbitrary: w)
  case Nil
  then show ?case by simp
next
  case (Cons x xs)
  show ?case
  proof (cases "enabled w x")
    case False
    then show ?thesis
      by (simp add: turn_def)
  next
    case True
    from Cons.prems have "well_formed c x" "\<forall>x \<in> set xs. well_formed c x"
      by simp_all
    from turn_safe [OF Cons.prems(1) True this(1)] obtain w1 where
      w1: "turn c w x = Inr w1" "safe c w1"
      by blast
    from Cons.IH [OF w1(2) \<open>\<forall>x \<in> set xs. well_formed c x\<close>] w1(1) show ?thesis
      by simp
  qed
qed

text \<open>
  A run of well-formed operations on a new manager returns a state, or stops because an
  operation was not enabled (a callback that is not outstanding, or a request vector that
  cannot exist): it never stops in an error of the manager.
\<close>

lemma no_run_fails:
  assumes "\<forall>x \<in> set xs. well_formed c x"
  shows "(\<exists>w. run c (new_world dlg testing ctx) xs = Inr w) \<or>
         run c (new_world dlg testing ctx) xs = Inl NotPending"
  using run_safe [OF new_world_safe assms] by blast

text \<open>
  After such a run, every enabled and well-formed operation returns a state.
\<close>

lemma no_turn_fails:
  assumes "run c (new_world dlg testing ctx) xs = Inr w"
    and "\<forall>y \<in> set xs. well_formed c y" and "well_formed c x" and "enabled w x"
  shows "\<exists>w'. turn c w x = Inr w'"
proof -
  from run_safe [OF new_world_safe assms(2), of dlg testing ctx] assms(1) have "safe c w"
    by auto
  from turn_safe [OF this assms(4,3)] show ?thesis
    by blast
qed

section \<open>Every job finishes\<close>

text \<open>
  A job leaves the table only through the two ends of the section on the life of a job.
  This section shows that it does reach one of them once the callbacks that are
  outstanding are run: the manager never leaves a job in the queue while a slot is free,
  and every callback takes its job out of the table.
\<close>

lemma TryToLaunch_settled:
  "TryToLaunchPreresolveJobs c s = Inr s' \<Longrightarrow> settled c s'"
proof (induction c s rule: TryToLaunchPreresolveJobs.induct)
  case (1 c s)
  show ?case
  proof (cases "queued_jobs s")
    case Nil
    with "1.prems" show ?thesis
      by (simp add: TryToLaunchPreresolveJobs.simps settled_def)
  next
    case (Cons j rest)
    show ?thesis
    proof (cases "inflight_preresolves_count s < kMaxInflightPreresolves c")
      case False
      with Cons "1.prems" show ?thesis
        by (simp add: TryToLaunchPreresolveJobs.simps settled_def)
    next
      case True
      with Cons "1.prems" obtain s1 where
        l: "launch_job c j (s\<lparr>queued_jobs := rest\<rparr>) = Inr s1"
        and r: "TryToLaunchPreresolveJobs c s1 = Inr s'"
        by (subst (asm) TryToLaunchPreresolveJobs.simps) (auto split: sum.splits)
      from "1.IH" [OF Cons True l r] show ?thesis .
    qed
  qed
qed

lemma apply_op_settled:
  assumes "apply_op c x s = Inr s'" and "settled c s"
  shows "settled c s'"
  using assms(1)
proof (cases rule: apply_op_cases)
  case unchanged
  with assms(2) show ?thesis by simp
next
  case (start u rs now)
  from TryToLaunch_settled [OF start(3)] show ?thesis .
next
  case (front jobs)
  from TryToLaunch_settled [OF front(3)] show ?thesis .
next
  case (stop u p i)
  with assms(2) show ?thesis by (simp add: settled_def)
next
  case (callback j b job s1 s2 s3)
  from TryToLaunch_settled [OF callback(6)] show ?thesis .
next
  case (env d ob n dn)
  with assms(2) show ?thesis by (simp add: settled_def)
qed

lemma turn_settled:
  assumes "turn c w x = Inr w'" and "settled c (mgr w)"
  shows "settled c (mgr w')"
  using assms(1)
proof (cases rule: turn_cases)
  case (1 m)
  from assms(2) have "settled c ((mgr w)\<lparr>calls := []\<rparr>)"
    by (simp add: settled_def)
  from apply_op_settled [OF 1(2) this] 1(3) show ?thesis
    by simp
qed

lemma run_settled:
  "run c w xs = Inr w' \<Longrightarrow> settled c (mgr w) \<Longrightarrow> settled c (mgr w')"
proof (induction xs arbitrary: w)
  case Nil
  then show ?case by simp
next
  case (Cons x xs)
  then show ?case
    by (auto split: sum.splits dest: turn_settled)
qed

lemma new_world_settled: "settled c (mgr (new_world dlg testing ctx))"
  by (simp add: settled_def new_world_def PreconnectManager_def)

text \<open>The table only loses jobs in a turn that runs a callback.\<close>

lemma launch_job_dom:
  "launch_job c j s = Inr s' \<Longrightarrow>
     dom (data (preresolve_jobs s')) \<subseteq> dom (data (preresolve_jobs s))"
  by (erule launch_job_cases) (auto simp: IDMap_Remove_def split: if_splits)

lemma TryToLaunch_dom:
  assumes "TryToLaunchPreresolveJobs c s = Inr s'"
  shows "dom (data (preresolve_jobs s')) \<subseteq> dom (data (preresolve_jobs s))"
proof (rule TryToLaunch_invariant [OF assms,
    where P = "\<lambda>x. dom (data (preresolve_jobs x)) \<subseteq> dom (data (preresolve_jobs s))"])
  show "dom (data (preresolve_jobs s)) \<subseteq> dom (data (preresolve_jobs s))"
    by simp
next
  fix x j rest s1
  assume a: "dom (data (preresolve_jobs x)) \<subseteq> dom (data (preresolve_jobs s))"
    and l: "launch_job c j (x\<lparr>queued_jobs := rest\<rparr>) = Inr s1"
  from launch_job_dom [OF l] a
  show "dom (data (preresolve_jobs s1)) \<subseteq> dom (data (preresolve_jobs s))"
    by simp
qed

lemma FinishPreresolve_dom:
  "FinishPreresolve c j b cached s = Inr s' \<Longrightarrow>
     dom (data (preresolve_jobs s')) = dom (data (preresolve_jobs s)) - {j}"
  by (erule FinishPreresolve_cases) (auto simp: IDMap_Remove_def split: if_splits)

lemma callback_dom:
  assumes "OnPreresolveFinished_cb c j b s = Inr s'"
  shows "dom (data (preresolve_jobs s')) \<subseteq> dom (data (preresolve_jobs s)) - {j}"
  using assms
proof (cases rule: OnPreresolveFinished_cb_cases)
  case (1 job s1 s2 s3)
  from FinishPreresolve_dom [OF 1(2)]
  have "dom (data (preresolve_jobs s1)) = dom (data (preresolve_jobs s)) - {j}"
    by (simp add: notify_def emit_def)
  moreover from if_info_jobs [OF 1(3)] have "preresolve_jobs s2 = preresolve_jobs s1"
    by simp
  moreover note finish_if_done_jobs [OF 1(4)] TryToLaunch_dom [OF 1(5)]
  ultimately show ?thesis
    by simp
qed

lemma next_callback_enabled:
  "pending w \<noteq> [] \<Longrightarrow> enabled w (next_callback w)"
  by (cases "pending w") (auto simp: next_callback_def split: option.splits)

lemma next_callback_job:
  "pending w \<noteq> [] \<Longrightarrow> \<exists>b. next_callback w = OpCallback (fst (hd (pending w))) b"
  by (cases "pending w") (auto simp: next_callback_def split: option.splits)

lemma drained:
  assumes "safe c w" and "settled c (mgr w)" and "0 < kMaxInflightPreresolves c"
    and "card (dom (data (preresolve_jobs (mgr w)))) \<le> n"
  shows "\<exists>w'. drain n c w = Inr w' \<and> safe c w' \<and>
           dom (data (preresolve_jobs (mgr w'))) = {} \<and> pending w' = [] \<and>
           queued_jobs (mgr w') = []"
  using assms
proof (induction n arbitrary: w)
  case 0
  let ?t = "preresolve_jobs (mgr w)"
  from "0.prems"(1) have td: "tidy (map fst (pending w)) (queued_jobs (mgr w)) [] ?t"
    by (simp add: safe_def sound_def)
  then have dm: "dom (data ?t) = set (queued_jobs (mgr w)) \<union> set (map fst (pending w))"
    by (simp add: tidy_def)
  then have "finite (dom (data ?t))"
    by simp
  with "0.prems"(4) have "dom (data ?t) = {}"
    by simp
  with dm "0.prems"(1) show ?case
    by simp
next
  case (Suc n)
  let ?t = "preresolve_jobs (mgr w)"
  from Suc.prems(1) have snd: "sound c (map fst (pending w)) ((mgr w)\<lparr>calls := []\<rparr>)"
    by (simp add: safe_def)
  from soundD(1) [OF snd]
  have dm: "dom (data ?t) = set (queued_jobs (mgr w)) \<union> set (map fst (pending w))"
    by (simp add: tidy_def)
  then have fin: "finite (dom (data ?t))"
    by simp
  show ?case
  proof (cases "pending w = []")
    case True
    with soundD(3) [OF snd] have "inflight_preresolves_count (mgr w) = 0"
      by (simp add: unat_eq_0)
    with Suc.prems(2,3) have "queued_jobs (mgr w) = []"
      by (simp add: settled_def)
    with True dm Suc.prems(1) show ?thesis
      by simp
  next
    case False
    from next_callback_job [OF False] obtain b where
      x: "next_callback w = OpCallback (fst (hd (pending w))) b"
      by blast
    let ?j = "fst (hd (pending w))"
    have wf: "well_formed c (next_callback w)"
      by (simp add: x well_formed_def)
    from turn_safe [OF Suc.prems(1) next_callback_enabled [OF False] wf] obtain w1 where
      w1: "turn c w (next_callback w) = Inr w1" "safe c w1"
      by blast
    from turn_settled [OF w1(1) Suc.prems(2)] have st: "settled c (mgr w1)" .
    from w1(1) obtain m where
      m: "apply_op c (next_callback w) ((mgr w)\<lparr>calls := []\<rparr>) = Inr m" "mgr w1 = m"
      by (cases rule: turn_cases) auto
    from m(1) have "OnPreresolveFinished_cb c ?j b ((mgr w)\<lparr>calls := []\<rparr>) = Inr m"
      by (simp add: x)
    from callback_dom [OF this] m(2)
    have sub: "dom (data (preresolve_jobs (mgr w1))) \<subseteq> dom (data ?t) - {?j}"
      by simp
    from False have "?j \<in> set (map fst (pending w))"
      by (cases "pending w") auto
    with dm have "?j \<in> dom (data ?t)"
      by blast
    with fin have "card (dom (data ?t) - {?j}) < card (dom (data ?t))"
      by (rule card_Diff1_less)
    moreover from sub fin have
      "card (dom (data (preresolve_jobs (mgr w1)))) \<le> card (dom (data ?t) - {?j})"
      by (intro card_mono) auto
    ultimately have "card (dom (data (preresolve_jobs (mgr w1)))) \<le> n"
      using Suc.prems(4) by simp
    from Suc.IH [OF w1(2) st Suc.prems(3) this] False w1(1) show ?thesis
      by simp
  qed
qed

lemma drain_is_run:
  "drain n c w = Inr w' \<Longrightarrow> \<exists>ys. run c w ys = Inr w' \<and> list_all is_callback ys"
proof (induction n arbitrary: w)
  case 0
  then have "run c w [] = Inr w'"
    by simp
  then show ?case
    by (intro exI [of _ "[]"]) simp
next
  case (Suc n)
  show ?case
  proof (cases "pending w = []")
    case True
    with Suc.prems have "run c w [] = Inr w'"
      by simp
    then show ?thesis
      by (intro exI [of _ "[]"]) simp
  next
    case False
    with Suc.prems obtain w1 where
      w1: "turn c w (next_callback w) = Inr w1" "drain n c w1 = Inr w'"
      by (auto split: sum.splits)
    from Suc.IH [OF w1(2)] obtain ys where
      ys: "run c w1 ys = Inr w'" "list_all is_callback ys"
      by blast
    from next_callback_job [OF False] have "is_callback (next_callback w)"
      by (auto simp: is_callback_def)
    with w1(1) ys have "run c w (next_callback w # ys) = Inr w' \<and>
        list_all is_callback (next_callback w # ys)"
      by simp
    then show ?thesis
      by blast
  qed
qed

text \<open>
  After every run of well-formed operations on a new manager with a cap above zero, there
  is a sequence of callbacks after which the job table, the queue and the outstanding
  callbacks are empty.
\<close>

lemma every_job_can_finish:
  assumes "run c (new_world dlg testing ctx) xs = Inr w"
    and "\<forall>x \<in> set xs. well_formed c x"
    and "0 < kMaxInflightPreresolves c"
  shows "\<exists>ys w'. run c w ys = Inr w' \<and> list_all is_callback ys \<and>
           dom (data (preresolve_jobs (mgr w'))) = {} \<and> pending w' = [] \<and>
           queued_jobs (mgr w') = []"
proof -
  let ?t = "preresolve_jobs (mgr w)"
  from run_safe [OF new_world_safe assms(2), of dlg testing ctx] assms(1) have s: "safe c w"
    by auto
  from run_settled [OF assms(1) new_world_settled] have st: "settled c (mgr w)" .
  from drained [OF s st assms(3) order_refl] obtain w' where
    w': "drain (card (dom (data ?t))) c w = Inr w'"
    "dom (data (preresolve_jobs (mgr w'))) = {}" "pending w' = []" "queued_jobs (mgr w') = []"
    by blast
  from drain_is_run [OF w'(1)] w'(2-4) show ?thesis
    by blast
qed

section \<open>The report to the delegate\<close>

text \<open>
  C2 fails on these two runs. With a cap of one, the slot is taken by an ad-hoc job,
  \<open>Start\<close> queues one job for a group, \<open>Stop\<close> cancels the group, and when the
  ad-hoc job finishes the queued job is dropped by \<open>TryToLaunchPreresolveJobs\<close>. With
  a cap of three, the slots are taken by a batch of three hosts, and the rest is the same.
  In both the group is then done (both counts are zero, no job of it and no callback is
  left), but only \<open>OnPreresolveFinished\<close> looks at \<open>is_done\<close>: no turn gives the
  delegate a report, the group stays in \<open>preresolve_info\<close>, and a later \<open>Start\<close> for
  its host does nothing.
\<close>

theorem dropped_group_is_never_reported:
  "trace_of leak_run =
     [(OpStartPreresolveHost url_x, [ResolveHost url_x 1]),
      (OpStart url_u [req_r] 0, []),
      (OpStop url_u, []),
      (OpCallback 1 True, [])] \<and>
   pending_of leak_run = [] \<and>
   queued_jobs (manager_of leak_run) = [] \<and>
   data (preresolve_jobs (manager_of leak_run)) 1 = None \<and>
   data (preresolve_jobs (manager_of leak_run)) 2 = None \<and>
   preresolve_info (manager_of leak_run) (host url_u) = Some 0 \<and>
   heap (manager_of leak_run) 0 =
     Some \<lparr>info_url = url_u, queued_count = 0, inflight_count = 0, was_canceled = True,
           stats = \<lparr>stats_url = url_u, start_time = 0, requests_stats = []\<rparr>\<rparr> \<and>
   Start cfg1 url_u [req_r] 9 (manager_of leak_run) = Inr (manager_of leak_run) \<and>
   trace_of leak_run3 =
     [(OpStartPreresolveHosts [''a'', ''b'', ''c''],
       [ResolveHost (GURL_http ''a'') 3, ResolveHost (GURL_http ''b'') 2,
        ResolveHost (GURL_http ''c'') 1]),
      (OpStart url_u [req_r] 0, []),
      (OpStop url_u, []),
      (OpCallback 1 True, []), (OpCallback 2 True, []), (OpCallback 3 True, [])] \<and>
   pending_of leak_run3 = [] \<and>
   queued_jobs (manager_of leak_run3) = [] \<and>
   map (data (preresolve_jobs (manager_of leak_run3))) [1, 2, 3, 4] = [None, None, None, None] \<and>
   preresolve_info (manager_of leak_run3) (host url_u) = Some 0 \<and>
   heap (manager_of leak_run3) 0 =
     Some \<lparr>info_url = url_u, queued_count = 0, inflight_count = 0, was_canceled = True,
           stats = \<lparr>stats_url = url_u, start_time = 0, requests_stats = []\<rparr>\<rparr> \<and>
   Start cfg3 url_u [req_r] 9 (manager_of leak_run3) = Inr (manager_of leak_run3)"
proof -
  have a: "trace_of leak_run =
     [(OpStartPreresolveHost url_x, [ResolveHost url_x 1]),
      (OpStart url_u [req_r] 0, []),
      (OpStop url_u, []),
      (OpCallback 1 True, [])]"
    "pending_of leak_run = []"
    "queued_jobs (manager_of leak_run) = []"
    "data (preresolve_jobs (manager_of leak_run)) 1 = None"
    "data (preresolve_jobs (manager_of leak_run)) 2 = None"
    "preresolve_info (manager_of leak_run) (host url_u) = Some 0"
    "heap (manager_of leak_run) 0 =
     Some \<lparr>info_url = url_u, queued_count = 0, inflight_count = 0, was_canceled = True,
           stats = \<lparr>stats_url = url_u, start_time = 0, requests_stats = []\<rparr>\<rparr>"
    by (simp_all add: leak_run_def pending_of_def eval_defs)
  have b: "trace_of leak_run3 =
     [(OpStartPreresolveHosts [''a'', ''b'', ''c''],
       [ResolveHost (GURL_http ''a'') 3, ResolveHost (GURL_http ''b'') 2,
        ResolveHost (GURL_http ''c'') 1]),
      (OpStart url_u [req_r] 0, []),
      (OpStop url_u, []),
      (OpCallback 1 True, []), (OpCallback 2 True, []), (OpCallback 3 True, [])]"
    "pending_of leak_run3 = []"
    "queued_jobs (manager_of leak_run3) = []"
    "map (data (preresolve_jobs (manager_of leak_run3))) [1, 2, 3, 4] = [None, None, None, None]"
    "preresolve_info (manager_of leak_run3) (host url_u) = Some 0"
    "heap (manager_of leak_run3) 0 =
     Some \<lparr>info_url = url_u, queued_count = 0, inflight_count = 0, was_canceled = True,
           stats = \<lparr>stats_url = url_u, start_time = 0, requests_stats = []\<rparr>\<rparr>"
    by (simp_all add: leak_run3_def pending_of_def eval_defs)
  have d: "Start cfg1 url_u [req_r] 9 (manager_of leak_run) = Inr (manager_of leak_run)"
    "Start cfg3 url_u [req_r] 9 (manager_of leak_run3) = Inr (manager_of leak_run3)"
    using a(6) b(5) by (simp_all add: Start_def)
  from a b d show ?thesis
    by simp
qed

section \<open>The order of the queue\<close>

text \<open>
  C5, as stated, fails: with a free slot the first host of the batch is admitted by the
  call of the batch, before the single host is queued. With a cap of four and nothing in
  flight all four are admitted by the two calls, in the order a, b, c, d; with a cap of
  three the order is the same and the single host waits for a slot; with a cap of one the
  order is a, d, b, c.
\<close>

theorem batch_admitted_before_single:
  "trace_of (run cfg4 (new_world True False (Some 7))
      [OpStartPreresolveHosts [''a'', ''b'', ''c''], OpStartPreresolveHost (GURL_http ''d'')]) =
     [(OpStartPreresolveHosts [''a'', ''b'', ''c''],
       [ResolveHost (GURL_http ''a'') 3, ResolveHost (GURL_http ''b'') 2,
        ResolveHost (GURL_http ''c'') 1]),
      (OpStartPreresolveHost (GURL_http ''d''), [ResolveHost (GURL_http ''d'') 4])] \<and>
   trace_of (run cfg3 (new_world True False (Some 7))
      [OpStartPreresolveHosts [''a'', ''b'', ''c''], OpStartPreresolveHost (GURL_http ''d''),
       OpCallback 3 True]) =
     [(OpStartPreresolveHosts [''a'', ''b'', ''c''],
       [ResolveHost (GURL_http ''a'') 3, ResolveHost (GURL_http ''b'') 2,
        ResolveHost (GURL_http ''c'') 1]),
      (OpStartPreresolveHost (GURL_http ''d''), []),
      (OpCallback 3 True, [ResolveHost (GURL_http ''d'') 4])] \<and>
   trace_of (run cfg1 (new_world True False (Some 7))
      [OpStartPreresolveHosts [''a'', ''b'', ''c''], OpStartPreresolveHost (GURL_http ''d''),
       OpCallback 3 True, OpCallback 4 True, OpCallback 2 True]) =
     [(OpStartPreresolveHosts [''a'', ''b'', ''c''], [ResolveHost (GURL_http ''a'') 3]),
      (OpStartPreresolveHost (GURL_http ''d''), []),
      (OpCallback 3 True, [ResolveHost (GURL_http ''d'') 4]),
      (OpCallback 4 True, [ResolveHost (GURL_http ''b'') 2]),
      (OpCallback 2 True, [ResolveHost (GURL_http ''c'') 1])]"
  by (simp add: eval_defs)

lemma TryToLaunch_full:
  "\<not> inflight_preresolves_count s < kMaxInflightPreresolves c \<Longrightarrow>
     TryToLaunchPreresolveJobs c s = Inr s"
  by (simp add: TryToLaunchPreresolveJobs.simps split: list.splits)

lemma push_hosts_effect:
  "\<exists>s'. push_hosts c hs s = Inr s' \<and>
        queued_jobs s' = rev [next_id (preresolve_jobs s) ..< next_id (preresolve_jobs s) + length hs]
                           @ queued_jobs s \<and>
        (\<forall>i < length hs. data (preresolve_jobs s') (next_id (preresolve_jobs s) + i)
                            = Some (host_job (hs ! i))) \<and>
        (\<forall>j < next_id (preresolve_jobs s).
            data (preresolve_jobs s') j = data (preresolve_jobs s) j) \<and>
        next_id (preresolve_jobs s') = next_id (preresolve_jobs s) + length hs \<and>
        calls s' = calls s \<and>
        inflight_preresolves_count s' = inflight_preresolves_count s"
proof (induction hs arbitrary: s)
  case Nil
  then show ?case by simp
next
  case (Cons h hs)
  let ?n = "next_id (preresolve_jobs s)"
  let ?s1 = "push_front_job (host_job h) s"
  have nj: "new_PreresolveJob c (GURL_http h) 0 kAllowCredentialsOnPreconnectByDefault None
              = Inr (host_job h)"
    by (simp add: new_PreresolveJob_def DCHECK_def host_job_def)
  have s1: "next_id (preresolve_jobs ?s1) = Suc ?n" "queued_jobs ?s1 = ?n # queued_jobs s"
    "data (preresolve_jobs ?s1) = (data (preresolve_jobs s))(?n \<mapsto> host_job h)"
    "calls ?s1 = calls s" "inflight_preresolves_count ?s1 = inflight_preresolves_count s"
    by (simp_all add: push_front_job_def IDMap_Add_def)
  from Cons.IH [of ?s1] obtain s' where s':
    "push_hosts c hs ?s1 = Inr s'"
    "queued_jobs s' = rev [Suc ?n ..< Suc ?n + length hs] @ ?n # queued_jobs s"
    "\<forall>i < length hs. data (preresolve_jobs s') (Suc ?n + i) = Some (host_job (hs ! i))"
    "\<forall>j < Suc ?n. data (preresolve_jobs s') j = ((data (preresolve_jobs s))(?n \<mapsto> host_job h)) j"
    "next_id (preresolve_jobs s') = Suc ?n + length hs"
    "calls s' = calls s"
    "inflight_preresolves_count s' = inflight_preresolves_count s"
    by (auto simp: s1)
  have "[?n ..< ?n + Suc (length hs)] = ?n # [Suc ?n ..< Suc ?n + length hs]"
    by (simp add: upt_conv_Cons del: upt_Suc)
  then have q: "queued_jobs s' = rev [?n ..< ?n + length (h # hs)] @ queued_jobs s"
    by (simp add: s'(2) del: upt_Suc)
  have d: "data (preresolve_jobs s') (?n + i) = Some (host_job ((h # hs) ! i))"
    if "i < length (h # hs)" for i
  proof (cases i)
    case 0
    with s'(4) show ?thesis by simp
  next
    case (Suc k)
    with that s'(3) show ?thesis by simp
  qed
  have f: "data (preresolve_jobs s') j = data (preresolve_jobs s) j" if "j < ?n" for j
    using that s'(4) by simp
  show ?case
    using s'(1,5,6,7) q d f by (simp add: nj)
qed

lemma map_rev_upt_lookup:
  assumes "\<forall>i < length xs. f (n + i) = g (xs ! i)"
  shows "map f (rev [n ..< n + length xs]) = map g (rev xs)"
proof -
  have "map f [n ..< n + length xs] = map g xs"
  proof (rule nth_equalityI)
    show "length (map f [n ..< n + length xs]) = length (map g xs)"
      by simp
  next
    fix i assume "i < length (map f [n ..< n + length xs])"
    then have "i < length xs" by simp
    with assms show "map f [n ..< n + length xs] ! i = map g xs ! i"
      by simp
  qed
  then show ?thesis
    by (simp add: rev_map [symmetric])
qed

text \<open>What the two calls leave when no slot is free.\<close>

lemma front_insertion_queue:
  assumes full: "\<not> inflight_preresolves_count s < kMaxInflightPreresolves c"
    and http: "SchemeIsHTTPOrHTTPS u"
  shows "\<exists>s1 s2.
           StartPreresolveHosts c hostnames s = Inr s1 \<and>
           StartPreresolveHost c u s1 = Inr s2 \<and>
           calls s1 = calls s \<and> calls s2 = calls s \<and>
           inflight_preresolves_count s1 = inflight_preresolves_count s \<and>
           inflight_preresolves_count s2 = inflight_preresolves_count s \<and>
           queued_jobs s2 =
             (next_id (preresolve_jobs s) + length hostnames) #
             rev [next_id (preresolve_jobs s) ..< next_id (preresolve_jobs s) + length hostnames]
             @ queued_jobs s \<and>
           map (\<lambda>j. map_option job_url (IDMap_Lookup (preresolve_jobs s2) j))
               ((next_id (preresolve_jobs s) + length hostnames) #
                rev [next_id (preresolve_jobs s) ..< next_id (preresolve_jobs s) + length hostnames])
             = map Some (GetOrigin u # map GURL_http hostnames) \<and>
           next_id (preresolve_jobs s2) = Suc (next_id (preresolve_jobs s) + length hostnames) \<and>
           (\<forall>j. next_id (preresolve_jobs s) \<le> j \<and>
                j \<le> next_id (preresolve_jobs s) + length hostnames \<longrightarrow>
                pointer_of (preresolve_jobs s2) j = None)"
proof -
  let ?n = "next_id (preresolve_jobs s)"
  let ?L = "length hostnames"
  from push_hosts_effect [of c "rev hostnames" s] obtain s1 where s1:
    "push_hosts c (rev hostnames) s = Inr s1"
    "queued_jobs s1 = rev [?n ..< ?n + ?L] @ queued_jobs s"
    "\<forall>i < ?L. data (preresolve_jobs s1) (?n + i) = Some (host_job (rev hostnames ! i))"
    "next_id (preresolve_jobs s1) = ?n + ?L"
    "calls s1 = calls s"
    "inflight_preresolves_count s1 = inflight_preresolves_count s"
    by auto
  from push_hosts_Inr [of c "rev hostnames" s] s1(1)
  have t1: "preresolve_jobs s1 = table_with (preresolve_jobs s) (map host_job (rev hostnames))"
    by simp
  have b: "StartPreresolveHosts c hostnames s = Inr s1"
    using s1(1,6) full by (simp add: StartPreresolveHosts_def TryToLaunch_full)
  define job where "job = \<lparr>job_url = GetOrigin u, num_sockets = 0,
     allow_credentials = kAllowCredentialsOnPreconnectByDefault, info = None,
     resolve_host_client = None\<rparr>"
  define s2 where "s2 = push_front_job job s1"
  have nj: "new_PreresolveJob c (GetOrigin u) 0 kAllowCredentialsOnPreconnectByDefault None
              = Inr job"
    by (simp add: new_PreresolveJob_def DCHECK_def job_def)
  have s2: "queued_jobs s2 = (?n + ?L) # rev [?n ..< ?n + ?L] @ queued_jobs s"
    "data (preresolve_jobs s2) = (data (preresolve_jobs s1))(?n + ?L \<mapsto> job)"
    "calls s2 = calls s" "inflight_preresolves_count s2 = inflight_preresolves_count s"
    "next_id (preresolve_jobs s2) = Suc (?n + ?L)"
    by (simp_all add: s2_def push_front_job_def IDMap_Add_def s1)
  have a: "StartPreresolveHost c u s1 = Inr s2"
    using http full s2(4) by (simp add: StartPreresolveHost_def nj s2_def [symmetric] TryToLaunch_full)
  have old: "\<forall>i < length (rev hostnames).
      map_option job_url (data (preresolve_jobs s2) (?n + i)) = Some (GURL_http (rev hostnames ! i))"
    using s1(3) by (simp add: s2(2) host_job_def)
  have "map (\<lambda>j. map_option job_url (data (preresolve_jobs s2) j)) (rev [?n ..< ?n + ?L])
          = map (\<lambda>h. Some (GURL_http h)) (rev (rev hostnames))"
    using map_rev_upt_lookup [OF old] by simp
  then have m: "map (\<lambda>j. map_option job_url (IDMap_Lookup (preresolve_jobs s2) j))
               ((?n + ?L) # rev [?n ..< ?n + ?L])
             = map Some (GetOrigin u # map GURL_http hostnames)"
    by (simp add: IDMap_Lookup_def) (simp add: s2(2) job_def)
  have p: "pointer_of (preresolve_jobs s2) j = None" if "?n \<le> j" "j \<le> ?n + ?L" for j
  proof (cases "j = ?n + ?L")
    case True
    then show ?thesis
      by (simp add: pointer_of_def s2(2) job_def)
  next
    case False
    with that have "j < ?n + ?L"
      by simp
    with that have "pointer_of (preresolve_jobs s1) j = None"
      by (simp add: t1 pointer_of_table_with)
    with False show ?thesis
      by (simp add: pointer_of_def s2(2))
  qed
  from a b m s1(5,6) s2(1,3,4,5) p show ?thesis
    by blast
qed

text \<open>Jobs without a group are admitted in the order of the queue.\<close>

lemma ordered_fields:
  assumes "ordered L A s"
    and "queued_jobs s' = queued_jobs s" "issued_ids (calls s') = issued_ids (calls s)"
    and "next_id (preresolve_jobs s') = next_id (preresolve_jobs s)"
    and "\<And>j. pointer_of (preresolve_jobs s) j = None \<Longrightarrow> pointer_of (preresolve_jobs s') j = None"
  shows "ordered L A s'"
  using assms by (simp add: ordered_def)

lemma next_id_Remove [simp]: "next_id (IDMap_Remove j t) = next_id t"
  by (simp add: IDMap_Remove_def)

lemma launch_job_ordered:
  assumes o: "ordered L A s" and q: "queued_jobs s = j # rest"
    and l: "launch_job c j (s\<lparr>queued_jobs := rest\<rparr>) = Inr s1"
  shows "ordered L A s1"
  using l
proof (cases rule: launch_job_cases)
  case (adhoc job)
  then have d: "data (preresolve_jobs s) j = Some job"
    by simp
  from o q show ?thesis
    by (auto simp: ordered_def adhoc(3) pointer_of_client [OF d] split: if_splits)
next
  case (grouped job p i)
  then have d: "data (preresolve_jobs s) j = Some job"
    by simp
  from o q show ?thesis
    by (auto simp: ordered_def grouped(5) pointer_of_client [OF d] split: if_splits)
next
  case (dropped job p i)
  then have "pointer_of (preresolve_jobs s) j = Some p"
    by (simp add: pointer_of_def)
  with o have "j \<notin> set L"
    by (auto simp: ordered_def)
  with o q show ?thesis
    by (simp add: ordered_def dropped(5) pointer_of_Remove)
qed

lemma TryToLaunch_ordered:
  assumes "TryToLaunchPreresolveJobs c s = Inr s'" and "ordered L A s"
  shows "ordered L A s'"
proof (rule TryToLaunch_invariant [OF assms(1), where P = "ordered L A"])
  show "ordered L A s" by fact
next
  fix x j rest s1
  assume "ordered L A x" "queued_jobs x = j # rest"
    "launch_job c j (x\<lparr>queued_jobs := rest\<rparr>) = Inr s1"
  then show "ordered L A s1"
    by (rule launch_job_ordered)
qed

lemma FinishPreresolve_ordered:
  assumes "FinishPreresolve c j b cached s = Inr s'" and "ordered L A s"
  shows "ordered L A s'"
  using assms(1)
proof (cases rule: FinishPreresolve_cases)
  case (failed job)
  from assms(2) show ?thesis
    by (rule ordered_fields) (simp_all add: failed(3) pointer_of_Remove)
next
  case (adhoc job)
  from assms(2) show ?thesis
    by (rule ordered_fields) (simp_all add: adhoc(4) pointer_of_Remove)
next
  case (grouped job p i)
  from assms(2) show ?thesis
    by (rule ordered_fields) (simp_all add: grouped(5) pointer_of_Remove)
qed

lemma if_info_ordered:
  "if_info ip f s = Inr s' \<Longrightarrow> ordered L A s \<Longrightarrow> ordered L A s'"
  by (cases ip) (auto simp: if_info_Some_Inr ordered_def)

lemma finish_if_done_ordered:
  assumes "finish_if_done c ip s = Inr s'" and "ordered L A s"
  shows "ordered L A s'"
  using assms(1)
proof (cases rule: finish_if_done_cases)
  case no_info
  with assms(2) show ?thesis by simp
next
  case (unfinished p i)
  with assms(2) show ?thesis by simp
next
  case (finalised p i q)
  from assms(2) show ?thesis
    by (rule ordered_fields) (simp_all add: finalised(6))
qed

lemma ordered_push:
  assumes o: "ordered L A s"
    and new: "set new = {next_id (preresolve_jobs s) ..< next_id (preresolve_jobs s) + length jobs}"
    and q: "queued_jobs s' = new @ queued_jobs s \<or> queued_jobs s' = queued_jobs s @ new"
    and t: "preresolve_jobs s' = table_with (preresolve_jobs s) jobs"
    and e: "calls s' = calls s"
  shows "ordered L A s'"
proof -
  have "filter (\<lambda>j. j \<in> set L) new = []"
    using o new by (auto simp: ordered_def filter_empty_conv)
  with q have "filter (\<lambda>j. j \<in> set L) (queued_jobs s') = filter (\<lambda>j. j \<in> set L) (queued_jobs s)"
    by auto
  moreover have "pointer_of (preresolve_jobs s') j = None" "j < next_id (preresolve_jobs s')"
    if "j \<in> set L" for j
    using o that by (auto simp: ordered_def t pointer_of_table_with)
  ultimately show ?thesis
    using o by (simp add: ordered_def e)
qed

lemma apply_op_ordered:
  assumes "apply_op c x s = Inr s'" and o: "ordered L A s"
  shows "ordered L A s'"
  using assms(1)
proof (cases rule: apply_op_cases)
  case unchanged
  with o show ?thesis by simp
next
  case (start u rs now)
  let ?s0 = "s\<lparr>preresolve_info := (preresolve_info s)(host u \<mapsto> next_ptr s),
            heap := (heap s)(next_ptr s \<mapsto> new_PreresolveInfo u (length rs) now),
            next_ptr := next_ptr s + 1,
            preresolve_jobs := table_with (preresolve_jobs s) (map (request_job (next_ptr s)) rs),
            queued_jobs := queued_jobs s @
              [next_id (preresolve_jobs s) ..< next_id (preresolve_jobs s) + length rs]\<rparr>"
  have "ordered L A ?s0"
    by (rule ordered_push [OF o, where jobs = "map (request_job (next_ptr s)) rs"
          and new = "[next_id (preresolve_jobs s) ..< next_id (preresolve_jobs s) + length rs]"])
       simp_all
  from TryToLaunch_ordered [OF start(3) this] show ?thesis .
next
  case (front jobs)
  let ?s0 = "s\<lparr>preresolve_jobs := table_with (preresolve_jobs s) jobs,
            queued_jobs := rev [next_id (preresolve_jobs s) ..<
                                next_id (preresolve_jobs s) + length jobs] @ queued_jobs s\<rparr>"
  have "ordered L A ?s0"
    by (rule ordered_push [OF o, where jobs = jobs
          and new = "rev [next_id (preresolve_jobs s) ..< next_id (preresolve_jobs s) + length jobs]"])
       simp_all
  from TryToLaunch_ordered [OF front(3) this] show ?thesis .
next
  case (stop u p i)
  from o show ?thesis
    by (rule ordered_fields) (simp_all add: stop(4))
next
  case (callback j b job s1 s2 s3)
  from o have "ordered L A (notify (OnPreresolveFinished (job_url job) b) s)"
    by (rule ordered_fields) (simp_all add: notify_fields)
  from FinishPreresolve_ordered [OF callback(3) this] have "ordered L A s1" .
  then have "ordered L A (s1\<lparr>inflight_preresolves_count := inflight_preresolves_count s1 - 1\<rparr>)"
    by (rule ordered_fields) simp_all
  from if_info_ordered [OF callback(4) this] have "ordered L A s2" .
  from finish_if_done_ordered [OF callback(5) this] have "ordered L A s3" .
  from TryToLaunch_ordered [OF callback(6) this] show ?thesis .
next
  case (env d ob n dn)
  from o show ?thesis
    by (rule ordered_fields) (simp_all add: env(2))
qed

lemma admitted_snoc [simp]:
  "admitted (H @ [(x, evs)]) = admitted H @ issued_ids evs"
  by (simp add: admitted_def)

lemma turn_lined:
  assumes "turn c w x = Inr w'" and "lined L k w"
  shows "lined L k w'"
  using assms(1)
proof (cases rule: turn_cases)
  case (1 m)
  let ?A = "filter (\<lambda>j. j \<in> set L) (admitted (drop k (history w)))"
  from assms(2) have k: "k \<le> length (history w)"
    and o: "ordered L ?A ((mgr w)\<lparr>calls := []\<rparr>)"
    by (simp_all add: lined_def)
  from apply_op_ordered [OF 1(2) o] have "ordered L ?A m" .
  then have "ordered L (?A @ filter (\<lambda>j. j \<in> set L) (issued_ids (calls m))) (m\<lparr>calls := []\<rparr>)"
    by (simp add: ordered_def)
  with k show ?thesis
    by (simp add: lined_def 1(3))
qed

lemma run_lined:
  "run c w xs = Inr w' \<Longrightarrow> lined L k w \<Longrightarrow> lined L k w'"
proof (induction xs arbitrary: w)
  case Nil
  then show ?case by simp
next
  case (Cons x xs)
  then show ?case
    by (auto split: sum.splits dest: turn_lined)
qed

lemma calls_reset: "calls s = [] \<Longrightarrow> s\<lparr>calls := []\<rparr> = s"
  by (cases s) simp

text \<open>
  C5, amended: after any run of a new manager that leaves no slot free,
  \<open>StartPreresolveHosts\<close> followed by \<open>StartPreresolveHost\<close> admit nothing and leave
  the queue starting with the single host, then the batch in its own order, then what was
  queued before. From then on, whatever entry points and callbacks run, the jobs of the
  single host and of the batch that were admitted, in the order of their admission,
  followed by those still in the queue, in its order, are the single host and then the
  batch in its own order: they are admitted in that order, and none is dropped.
\<close>

theorem front_insertion_order:
  assumes reach: "run c (new_world dlg testing ctx) xs = Inr w"
    and full: "\<not> inflight_preresolves_count (mgr w) < kMaxInflightPreresolves c"
    and http: "SchemeIsHTTPOrHTTPS u"
  shows "\<exists>w1 w2 L.
           turn c w (OpStartPreresolveHosts hostnames) = Inr w1 \<and>
           turn c w1 (OpStartPreresolveHost u) = Inr w2 \<and>
           calls (mgr w1) = [] \<and> calls (mgr w2) = [] \<and> pending w2 = pending w \<and>
           inflight_preresolves_count (mgr w2) = inflight_preresolves_count (mgr w) \<and>
           queued_jobs (mgr w2) = L @ queued_jobs (mgr w) \<and>
           map (\<lambda>j. map_option job_url (IDMap_Lookup (preresolve_jobs (mgr w2)) j)) L
             = map Some (GetOrigin u # map GURL_http hostnames) \<and>
           (\<forall>ys w3. run c w2 ys = Inr w3 \<longrightarrow>
              filter (\<lambda>j. j \<in> set L) (admitted (drop (length (history w2)) (history w3))) @
              filter (\<lambda>j. j \<in> set L) (queued_jobs (mgr w3)) = L)"
proof -
  let ?s = "(mgr w)\<lparr>calls := []\<rparr>"
  let ?n = "next_id (preresolve_jobs (mgr w))"
  let ?len = "length hostnames"
  let ?L = "(?n + ?len) # rev [?n ..< ?n + ?len]"
  have full': "\<not> inflight_preresolves_count ?s < kMaxInflightPreresolves c"
    using full by simp
  from front_insertion_queue [OF full' http, of hostnames] obtain s1 s2 where
    b: "StartPreresolveHosts c hostnames ?s = Inr s1"
    and a: "StartPreresolveHost c u s1 = Inr s2"
    and c1: "calls s1 = []" and c2: "calls s2 = []"
    and i1: "inflight_preresolves_count s1 = inflight_preresolves_count (mgr w)"
    and i2: "inflight_preresolves_count s2 = inflight_preresolves_count (mgr w)"
    and q2: "queued_jobs s2 = ?L @ queued_jobs (mgr w)"
    and m: "map (\<lambda>j. map_option job_url (IDMap_Lookup (preresolve_jobs s2) j)) ?L
             = map Some (GetOrigin u # map GURL_http hostnames)"
    and n2: "next_id (preresolve_jobs s2) = Suc (?n + ?len)"
    and p2: "\<forall>j. ?n \<le> j \<and> j \<le> ?n + ?len \<longrightarrow> pointer_of (preresolve_jobs s2) j = None"
    by auto
  define w1 where "w1 = \<lparr>mgr = s1, pending = pending w,
    history = history w @ [(OpStartPreresolveHosts hostnames, [])]\<rparr>"
  define w2 where "w2 = \<lparr>mgr = s2, pending = pending w,
    history = history w @ [(OpStartPreresolveHosts hostnames, []), (OpStartPreresolveHost u, [])]\<rparr>"
  have t1: "turn c w (OpStartPreresolveHosts hostnames) = Inr w1"
    using b c1 by (simp add: turn_def w1_def)
  have r1: "(mgr w1)\<lparr>calls := []\<rparr> = s1"
    using c1 by (simp add: w1_def calls_reset)
  have t2: "turn c w1 (OpStartPreresolveHost u) = Inr w2"
    using a c2 by (simp add: turn_def r1) (simp add: w1_def w2_def)
  note A = run_accounted [OF reach new_world_accounted, unfolded accounted_def]
  have e: "dom (data (preresolve_jobs (mgr w))) =
      set (queued_jobs (mgr w)) \<union> set (map fst (pending w))"
    using A by (elim conjE)
  have bd: "\<forall>j \<in> dom (data (preresolve_jobs (mgr w))). j < ?n"
    using A by (elim conjE)
  have old: "\<forall>j \<in> set (queued_jobs (mgr w)). j < ?n"
    using e bd by blast
  define L where "L = ?L"
  have inL: "j \<in> set L \<longleftrightarrow> ?n \<le> j \<and> j \<le> ?n + ?len" for j
    by (auto simp: L_def)
  have f1: "filter (\<lambda>j. j \<in> set L) (queued_jobs (mgr w)) = []"
    using old by (auto simp: filter_empty_conv inL)
  have f2: "filter (\<lambda>j. j \<in> set L) L = L"
    by (rule filter_True) simp
  have q2': "queued_jobs s2 = L @ queued_jobs (mgr w)"
    using q2 by (simp add: L_def)
  have o: "ordered L [] ((mgr w2)\<lparr>calls := []\<rparr>)"
    unfolding ordered_def
  proof (intro conjI ballI)
    show "[] @ filter (\<lambda>j. j \<in> set L) (issued_ids (calls ((mgr w2)\<lparr>calls := []\<rparr>))) @
        filter (\<lambda>j. j \<in> set L) (queued_jobs ((mgr w2)\<lparr>calls := []\<rparr>)) = L"
      using f1 f2 by (simp add: w2_def q2')
  next
    fix j assume "j \<in> set L"
    then have j: "?n \<le> j \<and> j \<le> ?n + ?len"
      by (simp only: inL)
    then show "j < next_id (preresolve_jobs ((mgr w2)\<lparr>calls := []\<rparr>))"
      by (simp add: w2_def n2)
    from j p2 show "pointer_of (preresolve_jobs ((mgr w2)\<lparr>calls := []\<rparr>)) j = None"
      by (simp add: w2_def)
  qed
  have l: "lined L (length (history w2)) w2"
    using o by (simp add: lined_def admitted_def)
  have later: "filter (\<lambda>j. j \<in> set L) (admitted (drop (length (history w2)) (history w3))) @
        filter (\<lambda>j. j \<in> set L) (queued_jobs (mgr w3)) = L"
    if "run c w2 ys = Inr w3" for ys w3
    using run_lined [OF that l] by (simp add: lined_def ordered_def)
  have m': "map (\<lambda>j. map_option job_url (IDMap_Lookup (preresolve_jobs s2) j)) L
             = map Some (GetOrigin u # map GURL_http hostnames)"
    using m by (simp only: L_def)
  have "turn c w (OpStartPreresolveHosts hostnames) = Inr w1 \<and>
           turn c w1 (OpStartPreresolveHost u) = Inr w2 \<and>
           calls (mgr w1) = [] \<and> calls (mgr w2) = [] \<and> pending w2 = pending w \<and>
           inflight_preresolves_count (mgr w2) = inflight_preresolves_count (mgr w) \<and>
           queued_jobs (mgr w2) = L @ queued_jobs (mgr w) \<and>
           map (\<lambda>j. map_option job_url (IDMap_Lookup (preresolve_jobs (mgr w2)) j)) L
             = map Some (GetOrigin u # map GURL_http hostnames) \<and>
           (\<forall>ys w3. run c w2 ys = Inr w3 \<longrightarrow>
              filter (\<lambda>j. j \<in> set L) (admitted (drop (length (history w2)) (history w3))) @
              filter (\<lambda>j. j \<in> set L) (queued_jobs (mgr w3)) = L)"
    using t1 t2 c1 c2 i2 q2' m' later by (simp add: w1_def w2_def)
  then show ?thesis
    by blast
qed

theorem front_insertion_order_witness:
  "run cfg1 (new_world True False (Some 7)) [OpStartPreresolveHost url_x] = Inr busy_w \<and>
   \<not> inflight_preresolves_count (mgr busy_w) < kMaxInflightPreresolves cfg1 \<and>
   SchemeIsHTTPOrHTTPS (GURL_http ''d'') \<and>
   turn cfg1 busy_w (OpStartPreresolveHosts [''a'', ''b'', ''c'']) = Inr order_w1 \<and>
   turn cfg1 order_w1 (OpStartPreresolveHost (GURL_http ''d'')) = Inr order_w2 \<and>
   queued_jobs (mgr order_w2) = [5, 4, 3, 2] \<and>
   map (\<lambda>j. map_option job_url (IDMap_Lookup (preresolve_jobs (mgr order_w2)) j)) [5, 4, 3, 2]
     = map Some [GURL_http ''d'', GURL_http ''a'', GURL_http ''b'', GURL_http ''c''] \<and>
   run cfg1 order_w2 [OpCallback 1 True, OpCallback 5 True, OpCallback 4 False, OpCallback 3 True]
     = Inr order_w3 \<and>
   drop (length (history order_w2)) (history order_w3) =
     [(OpCallback 1 True, [ResolveHost (GURL_http ''d'') 5]),
      (OpCallback 5 True, [ResolveHost (GURL_http ''a'') 4]),
      (OpCallback 4 False, [ResolveHost (GURL_http ''b'') 3]),
      (OpCallback 3 True, [ResolveHost (GURL_http ''c'') 2])] \<and>
   queued_jobs (mgr order_w3) = [] \<and>
   filter (\<lambda>j. j \<in> set [5, 4, 3, 2])
     (admitted (drop (length (history order_w2)) (history order_w3))) = [5, 4, 3, 2]"
proof -
  have r: "run cfg1 (new_world True False (Some 7)) [OpStartPreresolveHost url_x] = Inr busy_w"
    by (simp add: busy_w_def world_of_def eval_defs)
  have f: "\<not> inflight_preresolves_count (mgr busy_w) < kMaxInflightPreresolves cfg1"
    by (simp add: busy_w_def world_of_def eval_defs)
  have h: "SchemeIsHTTPOrHTTPS (GURL_http ''d'')"
    by (simp add: SchemeIsHTTPOrHTTPS_def GURL_http_def)
  have q0: "queued_jobs (mgr busy_w) = []"
    by (simp add: busy_w_def world_of_def eval_defs)
  have t1: "turn cfg1 busy_w (OpStartPreresolveHosts [''a'', ''b'', ''c'']) = Inr order_w1"
    by (simp add: order_w1_def busy_w_def world_of_def eval_defs)
  have t2: "turn cfg1 order_w1 (OpStartPreresolveHost (GURL_http ''d'')) = Inr order_w2"
    by (simp add: order_w2_def order_w1_def busy_w_def world_of_def eval_defs)
  have q2: "queued_jobs (mgr order_w2) = [5, 4, 3, 2]"
    by (simp add: order_w2_def order_w1_def busy_w_def world_of_def eval_defs)
  have m: "map (\<lambda>j. map_option job_url (IDMap_Lookup (preresolve_jobs (mgr order_w2)) j))
      [5, 4, 3, 2]
     = map Some [GURL_http ''d'', GURL_http ''a'', GURL_http ''b'', GURL_http ''c'']"
    by (simp add: order_w2_def order_w1_def busy_w_def world_of_def eval_defs)
  have r3: "run cfg1 order_w2
      [OpCallback 1 True, OpCallback 5 True, OpCallback 4 False, OpCallback 3 True]
     = Inr order_w3"
    by (simp add: order_w3_def order_w2_def order_w1_def busy_w_def world_of_def eval_defs)
  have d: "drop (length (history order_w2)) (history order_w3) =
     [(OpCallback 1 True, [ResolveHost (GURL_http ''d'') 5]),
      (OpCallback 5 True, [ResolveHost (GURL_http ''a'') 4]),
      (OpCallback 4 False, [ResolveHost (GURL_http ''b'') 3]),
      (OpCallback 3 True, [ResolveHost (GURL_http ''c'') 2])]"
    by (simp add: order_w3_def order_w2_def order_w1_def busy_w_def world_of_def eval_defs)
  have q3: "queued_jobs (mgr order_w3) = []"
    by (simp add: order_w3_def order_w2_def order_w1_def busy_w_def world_of_def eval_defs)
  from front_insertion_order [OF r f h, of "[''a'', ''b'', ''c'']"] obtain w1 w2 L where
    a: "turn cfg1 busy_w (OpStartPreresolveHosts [''a'', ''b'', ''c'']) = Inr w1"
    "turn cfg1 w1 (OpStartPreresolveHost (GURL_http ''d'')) = Inr w2"
    "queued_jobs (mgr w2) = L @ queued_jobs (mgr busy_w)"
    and later: "\<forall>ys w3. run cfg1 w2 ys = Inr w3 \<longrightarrow>
       filter (\<lambda>j. j \<in> set L) (admitted (drop (length (history w2)) (history w3))) @
       filter (\<lambda>j. j \<in> set L) (queued_jobs (mgr w3)) = L"
    by blast
  from a(1) t1 have w1: "w1 = order_w1"
    by simp
  with a(2) t2 have w2: "w2 = order_w2"
    by simp
  with a(3) q0 q2 have L: "L = [5, 4, 3, 2]"
    by simp
  have r3': "run cfg1 w2
      [OpCallback 1 True, OpCallback 5 True, OpCallback 4 False, OpCallback 3 True]
     = Inr order_w3"
    unfolding w2 by (rule r3)
  from later [rule_format, OF r3']
  have "filter (\<lambda>j. j \<in> set L) (admitted (drop (length (history w2)) (history order_w3))) @
       filter (\<lambda>j. j \<in> set L) (queued_jobs (mgr order_w3)) = L" .
  then have "filter (\<lambda>j. j \<in> set [5, 4, 3, 2])
     (admitted (drop (length (history order_w2)) (history order_w3))) = [5, 4, 3, 2]"
    unfolding w2 L q3 by simp
  with r f h t1 t2 q2 m r3 d q3 show ?thesis
    by simp
qed

end
